theory Spec2Isabelle
  imports Main "HOL-Library.Sublist"
begin

section \<open>Exceptions\<close>

text \<open>
  The crawler distinguishes three classes of Python exceptions in its handlers:
  \<^verbatim>\<open>asyncio.TimeoutError\<close>, \<^verbatim>\<open>aiohttp.ClientError\<close> and every other
  \<^verbatim>\<open>Exception\<close>. The string is \<^verbatim>\<open>str(e)\<close>.
\<close>

datatype exn = TimeoutError | ClientError string | OtherException string

section \<open>Buffer handler (functions/buffer\_handler.py)\<close>

text \<open>
  A buffered record is a Python dict with a \<^verbatim>\<open>'type'\<close> key that is either
  \<^verbatim>\<open>'url'\<close> or \<^verbatim>\<open>'subdomain'\<close>: a tagged union. The response time is a
  measured quantity handed in by the caller; only its presence matters here.
\<close>

datatype crawl_record =
  UrlRecord
    (rec_session_id: int) (rec_url: string) (rec_normalized_url: string)
    (rec_domain: string) (rec_path: string) (rec_depth: int)
    (rec_status_code: "int option") (rec_content_type: "string option")
    (rec_response_time_ms: "int option") (rec_error_message: "string option")
| SubdomainRecord
    (sub_session_id: int) (sub_subdomain: string) (sub_base_domain: string)

fun is_url_record :: "crawl_record \<Rightarrow> bool" where
  "is_url_record (UrlRecord _ _ _ _ _ _ _ _ _ _) = True"
| "is_url_record (SubdomainRecord _ _ _) = False"

text \<open>
  The state of one \<^verbatim>\<open>CrawlBufferHandler\<close>. The field \<open>buffer_file\<close> is the content
  of the recovery mirror \<^verbatim>\<open>crawl_session_<id>_buffer.json\<close> on disk: \<open>None\<close> when
  the file does not exist, \<open>Some rs\<close> when it holds the JSON list \<open>rs\<close>.
\<close>

record buffer_handler =
  session_id :: int
  buffer_limit :: int
  buffer :: "crawl_record list"
  flush_count :: nat
  total_flushed :: nat
  buffer_file :: "crawl_record list option"

text \<open>
  What the environment answers to a file-system call (\<^verbatim>\<open>open\<close>, \<^verbatim>\<open>os.remove\<close>)
  and to the database calls of \<^verbatim>\<open>_insert_to_database\<close>: the call succeeds or it raises.
\<close>

datatype io_result = IoOk | IoError

datatype db_result = DbCommitted | DbRaises

definition init_handler :: "int \<Rightarrow> int \<Rightarrow> crawl_record list option \<Rightarrow> buffer_handler" where
  "init_handler sid lim file =
     \<lparr>session_id = sid, buffer_limit = lim, buffer = [], flush_count = 0,
      total_flushed = 0, buffer_file = file\<rparr>"

text \<open>
  \<^verbatim>\<open>_write_buffer_to_json\<close>: overwrite the mirror with the whole buffer. An exception
  is caught and logged as a warning. The failure that is modelled is the one of
  \<^verbatim>\<open>open\<close>, which leaves the file as it was; a failure of \<^verbatim>\<open>json.dump\<close> after the
  file was opened for writing, which leaves a cut file that holds no list of records, is
  not.
\<close>

definition write_buffer_to_json :: "io_result \<Rightarrow> buffer_handler \<Rightarrow> buffer_handler" where
  "write_buffer_to_json io h =
     (case io of
        IoOk \<Rightarrow> h\<lparr>buffer_file := Some (buffer h)\<rparr>
      | IoError \<Rightarrow> h)"

definition add_record :: "io_result \<Rightarrow> crawl_record \<Rightarrow> buffer_handler \<Rightarrow> buffer_handler" where
  "add_record io r h = write_buffer_to_json io (h\<lparr>buffer := buffer h @ [r]\<rparr>)"

definition add_url_record ::
  "io_result \<Rightarrow> string \<Rightarrow> string \<Rightarrow> string \<Rightarrow> string \<Rightarrow> int \<Rightarrow> int option \<Rightarrow>
   string option \<Rightarrow> int option \<Rightarrow> string option \<Rightarrow> buffer_handler \<Rightarrow> buffer_handler" where
  "add_url_record io url normalized_url domain path depth status_code content_type
       response_time_ms error_message h =
     add_record io
       (UrlRecord (session_id h) url normalized_url domain path depth status_code
          content_type response_time_ms error_message) h"

definition add_subdomain_record ::
  "io_result \<Rightarrow> string \<Rightarrow> string \<Rightarrow> buffer_handler \<Rightarrow> buffer_handler" where
  "add_subdomain_record io subdomain base_domain h =
     add_record io (SubdomainRecord (session_id h) subdomain base_domain) h"

definition should_flush :: "buffer_handler \<Rightarrow> bool" where
  "should_flush h = (int (length (buffer h)) \<ge> buffer_limit h)"

text \<open>
  \<^verbatim>\<open>_insert_to_database\<close> hands the url records to \<^verbatim>\<open>log_url_batch\<close> and each
  subdomain record to \<^verbatim>\<open>log_subdomain\<close>. The sink is an external collaborator; its
  answer is the parameter \<open>db\<close>. With no record of either type nothing is called and
  nothing can raise.
\<close>

definition insert_to_database :: "db_result \<Rightarrow> crawl_record list \<Rightarrow> exn + unit" where
  "insert_to_database db data =
     (let url_records = filter is_url_record data;
          subdomain_records = filter (\<lambda>r. \<not> is_url_record r) data
      in if url_records = [] \<and> subdomain_records = [] then Inr ()
         else (case db of
                 DbCommitted \<Rightarrow> Inr ()
               | DbRaises \<Rightarrow> Inl (OtherException ''database error'')))"

text \<open>\<^verbatim>\<open>if os.path.exists(self.buffer_file): os.remove(self.buffer_file)\<close>\<close>

definition remove_buffer_file :: "io_result \<Rightarrow> buffer_handler \<Rightarrow> exn + buffer_handler" where
  "remove_buffer_file rm h =
     (case buffer_file h of
        None \<Rightarrow> Inr h
      | Some _ \<Rightarrow>
          (case rm of
             IoOk \<Rightarrow> Inr (h\<lparr>buffer_file := None\<rparr>)
           | IoError \<Rightarrow> Inl (OtherException ''os.remove failed'')))"

text \<open>
  \<^verbatim>\<open>flush\<close>. The \<^verbatim>\<open>except Exception\<close> branch runs
  \<^verbatim>\<open>self.buffer.extend(data_to_flush)\<close> on whatever the buffer holds when the
  exception arrives: the untouched buffer when the insert raised, the cleared one when
  \<^verbatim>\<open>os.remove\<close> raised.
\<close>

definition flush :: "db_result \<Rightarrow> io_result \<Rightarrow> buffer_handler \<Rightarrow> nat \<times> buffer_handler" where
  "flush db rm h =
     (if buffer h = [] then (0, h)
      else
        let data_to_flush = buffer h in
        (case insert_to_database db data_to_flush of
           Inl e \<Rightarrow> (0, h\<lparr>buffer := buffer h @ data_to_flush\<rparr>)
         | Inr _ \<Rightarrow>
             let h1 = h\<lparr>buffer := []\<rparr> in
             (case remove_buffer_file rm h1 of
                Inl e \<Rightarrow> (0, h1\<lparr>buffer := buffer h1 @ data_to_flush\<rparr>)
              | Inr h2 \<Rightarrow>
                  (length data_to_flush,
                   h2\<lparr>flush_count := flush_count h2 + 1,
                      total_flushed := total_flushed h2 + length data_to_flush\<rparr>))))"

definition flush_if_needed :: "db_result \<Rightarrow> io_result \<Rightarrow> buffer_handler \<Rightarrow> nat \<times> buffer_handler" where
  "flush_if_needed db rm h = (if should_flush h then flush db rm h else (0, h))"

text \<open>
  \<^verbatim>\<open>final_flush\<close>: the clean-up \<^verbatim>\<open>os.remove\<close> is outside any handler, so its
  failure leaves the function by an exception.
\<close>

definition final_flush ::
  "db_result \<Rightarrow> io_result \<Rightarrow> io_result \<Rightarrow> buffer_handler \<Rightarrow> exn + (nat \<times> buffer_handler)" where
  "final_flush db rm rm' h =
     (case flush db rm h of
        (remaining, h1) \<Rightarrow>
          (case remove_buffer_file rm' h1 of
             Inl e \<Rightarrow> Inl e
           | Inr h2 \<Rightarrow> Inr (remaining, h2)))"

text \<open>A run of \<^verbatim>\<open>add_record\<close> calls, each with the answer of its file write.\<close>

fun add_records :: "(io_result \<times> crawl_record) list \<Rightarrow> buffer_handler \<Rightarrow> buffer_handler" where
  "add_records [] h = h"
| "add_records ((io, r) # rs) h = add_records rs (add_record io r h)"

section \<open>URL parsing (urllib.parse of the Python standard library)\<close>

text \<open>
  \<^verbatim>\<open>normalize_url\<close> is \<^verbatim>\<open>urlunparse\<close> after \<^verbatim>\<open>urlparse\<close>. Both belong to
  the standard library, not to the repository; they are modelled here after
  \<^verbatim>\<open>urllib/parse.py\<close> of CPython 3.11. A string is a list of characters with code
  points below 256.

  The releases of the library differ in \<^verbatim>\<open>urlunsplit\<close>, on a path that starts with two
  slashes where there is no network location. The parameter \<open>slash_fix\<close> of
  \<^verbatim>\<open>urlunsplit\<close>, and of everything that calls it, says which condition the installed
  library has: \<open>True\<close> for
  \<^verbatim>\<open>if netloc or (scheme and scheme in uses_netloc) or url[:2] == '//'\<close> (3.11.10),
  \<open>False\<close> for
  \<^verbatim>\<open>if netloc or (scheme and scheme in uses_netloc and url[:2] != '//')\<close> (3.11.2, 3.12.3).
\<close>

definition uses_netloc :: "string list" where
  "uses_netloc = ['''', ''ftp'', ''http'', ''gopher'', ''nntp'', ''telnet'',
     ''imap'', ''wais'', ''file'', ''mms'', ''https'', ''shttp'',
     ''snews'', ''prospero'', ''rtsp'', ''rtsps'', ''rtspu'', ''rsync'',
     ''svn'', ''svn+ssh'', ''sftp'', ''nfs'', ''git'', ''git+ssh'',
     ''ws'', ''wss'']"

definition uses_params :: "string list" where
  "uses_params = ['''', ''ftp'', ''hdl'', ''prospero'', ''http'', ''imap'',
     ''https'', ''shttp'', ''rtsp'', ''rtsps'', ''rtspu'', ''sip'',
     ''sips'', ''mms'', ''sftp'', ''tel'']"

definition scheme_chars :: string where
  "scheme_chars =
     ''abcdefghijklmnopqrstuvwxyzABCDEFGHIJKLMNOPQRSTUVWXYZ0123456789+-.''"

text \<open>\<^verbatim>\<open>c.isascii() and c.isalpha()\<close>\<close>

definition ascii_alpha :: "char \<Rightarrow> bool" where
  "ascii_alpha c =
     (c \<in> set ''abcdefghijklmnopqrstuvwxyzABCDEFGHIJKLMNOPQRSTUVWXYZ'')"

text \<open>\<^verbatim>\<open>str.lower\<close> on one character; it is applied to scheme characters only.\<close>

definition ascii_lower :: "char \<Rightarrow> char" where
  "ascii_lower c =
     (case map_of (zip ''ABCDEFGHIJKLMNOPQRSTUVWXYZ'' ''abcdefghijklmnopqrstuvwxyz'') c of
        None \<Rightarrow> c
      | Some d \<Rightarrow> d)"

text \<open>\<^verbatim>\<open>_WHATWG_C0_CONTROL_OR_SPACE\<close>: the characters 0x00 to 0x20.\<close>

definition c0_control_or_space :: "char \<Rightarrow> bool" where
  "c0_control_or_space c = ((of_char c :: nat) \<le> 32)"

text \<open>\<^verbatim>\<open>_UNSAFE_URL_BYTES_TO_REMOVE\<close>: tab, carriage return, line feed.\<close>

definition unsafe_url_byte :: "char \<Rightarrow> bool" where
  "unsafe_url_byte c = (c = CHR 0x09 \<or> c = CHR 0x0D \<or> c = CHR 0x0A)"

text \<open>\<^verbatim>\<open>s.split(c, 1)\<close> for a string \<open>s\<close> that contains \<open>c\<close>.\<close>

definition split_first :: "char \<Rightarrow> string \<Rightarrow> string \<times> string" where
  "split_first c s = (takeWhile (\<lambda>x. x \<noteq> c) s, tl (dropWhile (\<lambda>x. x \<noteq> c) s))"

definition netloc_delim :: "char \<Rightarrow> bool" where
  "netloc_delim c = (c = CHR ''/'' \<or> c = CHR ''?'' \<or> c = CHR ''#'')"

text \<open>\<^verbatim>\<open>_splitnetloc(url, 2)\<close>: the text after the two slashes up to the first of
  \<^verbatim>\<open>/ ? #\<close>, and the rest.\<close>

definition splitnetloc :: "string \<Rightarrow> string \<times> string" where
  "splitnetloc url =
     (takeWhile (\<lambda>c. \<not> netloc_delim c) (drop 2 url),
      dropWhile (\<lambda>c. \<not> netloc_delim c) (drop 2 url))"

text \<open>
  The scheme of \<^verbatim>\<open>urlsplit\<close>: the text before the first colon, when it is not empty,
  starts with an ASCII letter and holds scheme characters only; it is lower-cased.
\<close>

definition split_scheme :: "string \<Rightarrow> string \<times> string" where
  "split_scheme url =
     (let pre = takeWhile (\<lambda>c. c \<noteq> CHR '':'') url in
      if CHR '':'' \<in> set url \<and> pre \<noteq> [] \<and> ascii_alpha (hd pre)
           \<and> list_all (\<lambda>c. c \<in> set scheme_chars) pre
      then (map ascii_lower pre, tl (dropWhile (\<lambda>c. c \<noteq> CHR '':'') url))
      else ([], url))"

text \<open>
  \<^verbatim>\<open>urlsplit\<close>. The parameter \<open>valid_netloc\<close> stands for the checks the library runs
  on a non-empty network location (balanced brackets, \<^verbatim>\<open>_check_bracketed_host\<close>,
  \<^verbatim>\<open>_checknetloc\<close>); they use \<^verbatim>\<open>ipaddress\<close>, \<^verbatim>\<open>re\<close> and
  \<^verbatim>\<open>unicodedata\<close>, change nothing in the result and raise \<^verbatim>\<open>ValueError\<close> when
  they fail.
\<close>

definition urlsplit ::
  "(string \<Rightarrow> bool) \<Rightarrow> string \<Rightarrow> exn + (string \<times> string \<times> string \<times> string \<times> string)" where
  "urlsplit valid_netloc url =
     (let url1 = filter (\<lambda>c. \<not> unsafe_url_byte c) (dropWhile c0_control_or_space url);
          (sch, url2) = split_scheme url1;
          (loc, url3) = (if take 2 url2 = ''//'' then splitnetloc url2 else ([], url2));
          (url4, frag) =
             (if CHR ''#'' \<in> set url3 then split_first (CHR ''#'') url3 else (url3, []));
          (url5, qry) =
             (if CHR ''?'' \<in> set url4 then split_first (CHR ''?'') url4 else (url4, []))
      in if loc \<noteq> [] \<and> \<not> valid_netloc loc
         then Inl (OtherException ''ValueError'')
         else Inr (sch, loc, url5, qry, frag))"

text \<open>\<^verbatim>\<open>_splitparams\<close>, called on a string that contains a semicolon.\<close>

definition splitparams :: "string \<Rightarrow> string \<times> string" where
  "splitparams url =
     (if CHR ''/'' \<in> set url then
        (let seg = rev (takeWhile (\<lambda>c. c \<noteq> CHR ''/'') (rev url));
             dir = take (length url - length seg) url
         in if CHR '';'' \<in> set seg
            then (dir @ takeWhile (\<lambda>c. c \<noteq> CHR '';'') seg,
                  tl (dropWhile (\<lambda>c. c \<noteq> CHR '';'') seg))
            else (url, []))
      else split_first (CHR '';'') url)"

record parse_result =
  scheme :: string
  netloc :: string
  path :: string
  params :: string
  query :: string
  fragment :: string

definition urlparse :: "(string \<Rightarrow> bool) \<Rightarrow> string \<Rightarrow> exn + parse_result" where
  "urlparse valid_netloc url =
     (case urlsplit valid_netloc url of
        Inl e \<Rightarrow> Inl e
      | Inr (sch, loc, url', qry, frag) \<Rightarrow>
          (let (pth, prm) =
                 (if sch \<in> set uses_params \<and> CHR '';'' \<in> set url'
                  then splitparams url' else (url', []))
           in Inr \<lparr>scheme = sch, netloc = loc, path = pth, params = prm,
                    query = qry, fragment = frag\<rparr>))"

definition urlunsplit ::
  "bool \<Rightarrow> string \<times> string \<times> string \<times> string \<times> string \<Rightarrow> string" where
  "urlunsplit slash_fix c =
     (case c of (sch, loc, url, qry, frag) \<Rightarrow>
        (let url1 =
               (if loc \<noteq> [] \<or>
                   (if slash_fix
                    then (sch \<noteq> [] \<and> sch \<in> set uses_netloc) \<or> take 2 url = ''//''
                    else sch \<noteq> [] \<and> sch \<in> set uses_netloc \<and> take 2 url \<noteq> ''//'')
                then ''//'' @ loc @ (if url \<noteq> [] \<and> take 1 url \<noteq> ''/'' then ''/'' @ url else url)
                else url);
             url2 = (if sch \<noteq> [] then sch @ '':'' @ url1 else url1);
             url3 = (if qry \<noteq> [] then url2 @ ''?'' @ qry else url2)
         in if frag \<noteq> [] then url3 @ ''#'' @ frag else url3))"

definition urlunparse ::
  "bool \<Rightarrow> string \<times> string \<times> string \<times> string \<times> string \<times> string \<Rightarrow> string" where
  "urlunparse slash_fix c =
     (case c of (sch, loc, url, prm, qry, frag) \<Rightarrow>
        urlunsplit slash_fix
          (sch, loc, (if prm \<noteq> [] then url @ '';'' @ prm else url), qry, frag))"

section \<open>URL classifier (crwlr\_async.py)\<close>

definition normalize_url :: "bool \<Rightarrow> (string \<Rightarrow> bool) \<Rightarrow> string \<Rightarrow> exn + string" where
  "normalize_url slash_fix valid_netloc url =
     (case urlparse valid_netloc url of
        Inl e \<Rightarrow> Inl e
      | Inr parsed \<Rightarrow>
          Inr (urlunparse slash_fix
                 (scheme parsed, netloc parsed, path parsed, params parsed, query parsed, [])))"

text \<open>
  \<^verbatim>\<open>tldextract.extract\<close> is a third-party function over the public suffix list; it is
  a parameter of everything that calls it. Its result has three fields.
\<close>

record extract_result =
  ext_subdomain :: string
  ext_domain :: string
  ext_suffix :: string

definition is_same_domain :: "(string \<Rightarrow> extract_result) \<Rightarrow> string \<Rightarrow> string \<Rightarrow> bool" where
  "is_same_domain extract url1 url2 =
     (let ext1 = extract url1; ext2 = extract url2
      in ext_domain ext1 = ext_domain ext2 \<and> ext_suffix ext1 = ext_suffix ext2)"

definition get_subdomain :: "(string \<Rightarrow> extract_result) \<Rightarrow> string \<Rightarrow> string option" where
  "get_subdomain extract url =
     (let ext = extract url
      in if ext_subdomain ext \<noteq> [] \<and> ext_subdomain ext \<noteq> ''www''
         then Some (ext_subdomain ext @ ''.'' @ ext_domain ext @ ''.'' @ ext_suffix ext)
         else None)"

text \<open>
  The library functions the crawler calls: the condition of \<^verbatim>\<open>urlunsplit\<close> in the
  installed release, the netloc check of \<^verbatim>\<open>urlsplit\<close>,
  \<^verbatim>\<open>urljoin\<close> (which raises \<^verbatim>\<open>ValueError\<close> where \<^verbatim>\<open>urlsplit\<close> does),
  \<^verbatim>\<open>tldextract.extract\<close>, and \<^verbatim>\<open>re.search(pattern, text)\<close> for a valid
  pattern, as the truth value of its result.
\<close>

record lib =
  lib_slash_fix :: bool
  lib_valid_netloc :: "string \<Rightarrow> bool"
  lib_urljoin :: "string \<Rightarrow> string \<Rightarrow> exn + string"
  lib_extract :: "string \<Rightarrow> extract_result"
  lib_re_search :: "string \<Rightarrow> string \<Rightarrow> bool"

text \<open>Python's truth value of an optional string: not \<^verbatim>\<open>None\<close> and not empty.\<close>

fun truthy :: "string option \<Rightarrow> bool" where
  "truthy None = False"
| "truthy (Some s) = (s \<noteq> [])"

definition should_exclude ::
  "lib \<Rightarrow> string \<Rightarrow> string option \<Rightarrow> string option \<Rightarrow> exn + bool" where
  "should_exclude L url exclude_paths exclude_subdomains =
     (case (if truthy exclude_paths
            then (case urlparse (lib_valid_netloc L) url of
                    Inl e \<Rightarrow> Inl e
                  | Inr parsed \<Rightarrow> Inr (lib_re_search L (the exclude_paths) (path parsed)))
            else Inr False) of
        Inl e \<Rightarrow> Inl e
      | Inr True \<Rightarrow> Inr True
      | Inr False \<Rightarrow>
          (if truthy exclude_subdomains
           then (case get_subdomain (lib_extract L) url of
                   None \<Rightarrow> Inr False
                 | Some subdomain \<Rightarrow>
                     Inr (subdomain \<noteq> [] \<and> lib_re_search L (the exclude_subdomains) subdomain))
           else Inr False))"

section \<open>Link extraction from JSON (crwlr\_async.py)\<close>

text \<open>
  A parsed JSON value as \<^verbatim>\<open>response.json()\<close> returns it. A dict keeps its items in
  order; the payload of a number is never looked at.
\<close>

datatype json =
  JNull
| JBool bool
| JNumber int
| JString string
| JList "json list"
| JDict "(string \<times> json) list"

text \<open>\<^verbatim>\<open>value.startswith(('http://', 'https://', '/'))\<close>\<close>

definition looks_like_url :: "string \<Rightarrow> bool" where
  "looks_like_url v = (prefix ''http://'' v \<or> prefix ''https://'' v \<or> prefix ''/'' v)"

text \<open>\<^verbatim>\<open>normalize_url(urljoin(base_url, value))\<close>; either call may raise.\<close>

definition join_and_normalize :: "lib \<Rightarrow> string \<Rightarrow> string \<Rightarrow> exn + string" where
  "join_and_normalize L base_url v =
     (case lib_urljoin L base_url v of
        Inl e \<Rightarrow> Inl e
      | Inr absolute_url \<Rightarrow>
          normalize_url (lib_slash_fix L) (lib_valid_netloc L) absolute_url)"

text \<open>
  \<^verbatim>\<open>extract_urls_from_json\<close>. Its two iterations are the functions \<open>extract_items\<close> (over
  the items of a dict) and \<open>extract_elems\<close> (over the elements of a list). An exception
  ends the whole extraction.
\<close>

fun extract_urls_from_json :: "lib \<Rightarrow> json \<Rightarrow> string \<Rightarrow> exn + string list"
  and extract_items :: "lib \<Rightarrow> (string \<times> json) list \<Rightarrow> string \<Rightarrow> exn + string list"
  and extract_elems :: "lib \<Rightarrow> json list \<Rightarrow> string \<Rightarrow> exn + string list"
where
  "extract_urls_from_json L (JDict items) base_url = extract_items L items base_url"
| "extract_urls_from_json L (JList elems) base_url = extract_elems L elems base_url"
| "extract_urls_from_json L JNull base_url = Inr []"
| "extract_urls_from_json L (JBool b) base_url = Inr []"
| "extract_urls_from_json L (JNumber n) base_url = Inr []"
| "extract_urls_from_json L (JString s) base_url = Inr []"
| "extract_items L [] base_url = Inr []"
| "extract_items L ((key, v) # items) base_url =
     (case (case v of
              JString s \<Rightarrow>
                (if looks_like_url s
                 then (case join_and_normalize L base_url s of
                         Inl e \<Rightarrow> Inl e
                       | Inr u \<Rightarrow> Inr [u])
                 else Inr [])
            | JDict d \<Rightarrow> extract_urls_from_json L v base_url
            | JList l \<Rightarrow> extract_urls_from_json L v base_url
            | _ \<Rightarrow> Inr []) of
        Inl e \<Rightarrow> Inl e
      | Inr urls \<Rightarrow>
          (case extract_items L items base_url of
             Inl e \<Rightarrow> Inl e
           | Inr others \<Rightarrow> Inr (urls @ others)))"
| "extract_elems L [] base_url = Inr []"
| "extract_elems L (item # elems) base_url =
     (case extract_urls_from_json L item base_url of
        Inl e \<Rightarrow> Inl e
      | Inr urls \<Rightarrow>
          (case extract_elems L elems base_url of
             Inl e \<Rightarrow> Inl e
           | Inr others \<Rightarrow> Inr (urls @ others)))"

section \<open>Fetch worker (crawl\_url in crwlr\_async.py)\<close>

text \<open>The command-line arguments the worker and the scheduler read.\<close>

record args =
  max_depth :: int
  workers :: int
  exclude_paths :: "string option"
  exclude_subdomains :: "string option"

text \<open>
  The module-level state: the cancellation flag, the three discovery sets, the buffer
  handler (\<^verbatim>\<open>None\<close> when no database was asked for) and the progress bar's counter.
\<close>

record crawl_state =
  shutdown_flag :: bool
  visited_urls :: "string set"
  found_subdomains :: "string set"
  found_paths :: "string set"
  handler :: "buffer_handler option"
  pbar :: nat

text \<open>
  What the network answers to one GET. \<open>resp_json\<close> is the outcome of
  \<^verbatim>\<open>await response.json()\<close>; \<open>resp_hrefs\<close> is the outcome of
  \<^verbatim>\<open>await response.text()\<close> followed by the scan of BeautifulSoup: the \<^verbatim>\<open>href\<close>
  of every anchor that has one, in document order.
\<close>

datatype json_outcome = JsonValue json | JsonDecodeError | JsonRaises exn

record response =
  resp_status :: int
  resp_content_type :: "string option"
  resp_url :: string
  resp_json :: json_outcome
  resp_hrefs :: "exn + string list"

datatype fetch_outcome = Responded response int | FetchRaises exn

text \<open>
  The environment of one attempt: the answer of the network (with the measured request
  time in milliseconds), the answer of the file system to the mirror writes made for this
  attempt, and the arrival of SIGINT. \<open>Some k\<close> says that the signal handler sets the
  flag while this attempt is under way, after \<open>k\<close> of its loop-head checks of the flag
  have seen it clear; \<open>None\<close> says that no signal arrives during the attempt.
\<close>

record attempt_env =
  env_fetch :: fetch_outcome
  env_write :: io_result
  env_sigint :: "nat option"

text \<open>
  The guarded logging block
  \<^verbatim>\<open>if handler: try: parsed = urlparse(url); handler.add_url_record(...) except Exception: ...\<close>
\<close>

definition log_url ::
  "lib \<Rightarrow> io_result \<Rightarrow> string \<Rightarrow> int \<Rightarrow> int option \<Rightarrow> string option \<Rightarrow> int option \<Rightarrow>
   string option \<Rightarrow> buffer_handler option \<Rightarrow> buffer_handler option" where
  "log_url L io url depth status_code content_type response_time_ms error_message hopt =
     (case hopt of
        None \<Rightarrow> None
      | Some h \<Rightarrow>
          (case urlparse (lib_valid_netloc L) url of
             Inl e \<Rightarrow> Some h
           | Inr parsed \<Rightarrow>
               (case normalize_url (lib_slash_fix L) (lib_valid_netloc L) url of
                  Inl e \<Rightarrow> Some h
                | Inr normalized \<Rightarrow>
                    Some (add_url_record io url normalized (netloc parsed) (path parsed) depth
                            status_code content_type response_time_ms error_message h))))"

text \<open>\<^verbatim>\<open>needle in haystack\<close> for strings.\<close>

fun is_substring :: "string \<Rightarrow> string \<Rightarrow> bool" where
  "is_substring p [] = (p = [])"
| "is_substring p (c # cs) = (prefix p (c # cs) \<or> is_substring p cs)"

text \<open>A loop that checks the flag at its head runs over the items it reaches before the
  flag is set.\<close>

fun until_sigint :: "nat option \<Rightarrow> 'a list \<Rightarrow> 'a list" where
  "until_sigint None xs = xs"
| "until_sigint (Some k) xs = take k xs"

fun after_loop :: "nat option \<Rightarrow> 'a list \<Rightarrow> nat option" where
  "after_loop None xs = None"
| "after_loop (Some k) xs = Some (k - length xs)"

text \<open>The loop over the anchors of an HTML page; an exception ends it.\<close>

fun html_links :: "lib \<Rightarrow> string \<Rightarrow> string list \<Rightarrow> exn + string list" where
  "html_links L url [] = Inr []"
| "html_links L url (href # hrefs) =
     (case join_and_normalize L url href of
        Inl e \<Rightarrow> Inl e
      | Inr normalized \<Rightarrow>
          (case html_links L url hrefs of
             Inl e \<Rightarrow> Inl e
           | Inr others \<Rightarrow> Inr (normalized # others)))"

text \<open>
  The loop "Process potential URLs". It carries the set of found subdomains and the list
  \<^verbatim>\<open>new_urls\<close>; when an exception arrives, what was added before stays.
\<close>

fun process_potential_urls ::
  "lib \<Rightarrow> args \<Rightarrow> string \<Rightarrow> int \<Rightarrow> string list \<Rightarrow> string set \<times> (string \<times> int) list \<Rightarrow>
   (string set \<times> (string \<times> int) list) \<times> exn option" where
  "process_potential_urls L A base_domain depth [] acc = (acc, None)"
| "process_potential_urls L A base_domain depth (normalized # rest) (subs, new_urls) =
     (case urlparse (lib_valid_netloc L) normalized of
        Inl e \<Rightarrow> ((subs, new_urls), Some e)
      | Inr parsed \<Rightarrow>
          if scheme parsed \<noteq> ''http'' \<and> scheme parsed \<noteq> ''https''
          then process_potential_urls L A base_domain depth rest (subs, new_urls)
          else
            (case should_exclude L normalized (exclude_paths A) (exclude_subdomains A) of
               Inl e \<Rightarrow> ((subs, new_urls), Some e)
             | Inr True \<Rightarrow> process_potential_urls L A base_domain depth rest (subs, new_urls)
             | Inr False \<Rightarrow>
                 if is_same_domain (lib_extract L) normalized base_domain
                 then process_potential_urls L A base_domain depth rest
                        ((case get_subdomain (lib_extract L) normalized of
                            None \<Rightarrow> subs
                          | Some subdomain \<Rightarrow> insert subdomain subs),
                         (if depth < max_depth A
                          then new_urls @ [(normalized, depth + 1)] else new_urls))
                 else process_potential_urls L A base_domain depth rest (subs, new_urls)))"

text \<open>
  The entry of \<^verbatim>\<open>crawl_url\<close>, up to its first suspension point: the check of the flag
  and the test-and-insert on \<^verbatim>\<open>visited_urls\<close> under \<^verbatim>\<open>urls_lock\<close>. \<open>None\<close> is
  the immediate \<^verbatim>\<open>return []\<close>.
\<close>

definition crawl_enter :: "string \<Rightarrow> crawl_state \<Rightarrow> crawl_state option" where
  "crawl_enter url st =
     (if shutdown_flag st then None
      else if url \<in> visited_urls st then None
      else Some (st\<lparr>visited_urls := insert url (visited_urls st)\<rparr>))"

text \<open>
  The extraction block of the branch \<^verbatim>\<open>response.status == 200\<close>: the dispatch on
  the lower-cased content type. It returns \<^verbatim>\<open>potential_urls\<close> or the exception that
  was raised, and what is left of the signal's delay after the loop over the anchors.
  Lower-casing matters for ASCII letters only, since the two needles are ASCII.
\<close>

definition extract_links ::
  "lib \<Rightarrow> string \<Rightarrow> response \<Rightarrow> nat option \<Rightarrow> (exn + string list) \<times> nat option" where
  "extract_links L url resp sig =
     (let content_type =
            map ascii_lower (case resp_content_type resp of None \<Rightarrow> [] | Some c \<Rightarrow> c)
      in if is_substring ''application/json'' content_type then
           ((case resp_json resp of
               JsonValue data \<Rightarrow> extract_urls_from_json L data url
             | JsonDecodeError \<Rightarrow> Inr []
             | JsonRaises e \<Rightarrow> Inl e), sig)
         else if is_substring ''text/html'' content_type then
           (case resp_hrefs resp of
              Inl e \<Rightarrow> (Inl e, sig)
            | Inr hrefs \<Rightarrow> (html_links L url (until_sigint sig hrefs), after_loop sig hrefs))
         else (Inr [], sig))"

text \<open>
  The branch \<^verbatim>\<open>response.status == 200\<close>. It returns \<^verbatim>\<open>new_urls\<close>, the state, and
  the exception that left the branch, if one did.
\<close>

definition on_success ::
  "lib \<Rightarrow> args \<Rightarrow> attempt_env \<Rightarrow> string \<Rightarrow> string \<Rightarrow> int \<Rightarrow> response \<Rightarrow> int \<Rightarrow> crawl_state \<Rightarrow>
   (string \<times> int) list \<times> crawl_state \<times> exn option" where
  "on_success L A E url base_domain depth resp request_time st =
     (let final_url = resp_url resp;
          sig = (if shutdown_flag st then Some 0 else env_sigint E);
          st1 = st\<lparr>handler :=
                   log_url L (env_write E) url depth (Some (resp_status resp))
                     (resp_content_type resp) (Some request_time) None (handler st)\<rparr>;
          paths1 = (if is_same_domain (lib_extract L) url base_domain
                    then insert url (found_paths st1) else found_paths st1);
          paths2 = (if final_url \<noteq> url \<and> is_same_domain (lib_extract L) final_url base_domain
                    then insert final_url paths1 else paths1);
          subs1 = (case get_subdomain (lib_extract L) final_url of
                     None \<Rightarrow> found_subdomains st1
                   | Some subdomain \<Rightarrow> insert subdomain (found_subdomains st1));
          st2 = st1\<lparr>found_paths := paths2, found_subdomains := subs1\<rparr>
      in case extract_links L url resp sig of
           (Inl e, sig') \<Rightarrow> ([], st2, Some e)
         | (Inr potential_urls, sig') \<Rightarrow>
             (case process_potential_urls L A base_domain depth
                     (until_sigint sig' potential_urls) (found_subdomains st2, []) of
                ((subs, new_urls), raised) \<Rightarrow>
                  (new_urls, st2\<lparr>found_subdomains := subs\<rparr>, raised)))"

text \<open>The three \<^verbatim>\<open>except\<close> clauses of \<^verbatim>\<open>crawl_url\<close>.\<close>

fun on_exception ::
  "lib \<Rightarrow> io_result \<Rightarrow> string \<Rightarrow> int \<Rightarrow> exn \<Rightarrow> buffer_handler option \<Rightarrow> buffer_handler option" where
  "on_exception L io url depth TimeoutError hopt =
     log_url L io url depth None None None (Some ''Request timeout'') hopt"
| "on_exception L io url depth (ClientError msg) hopt =
     log_url L io url depth None None None (Some (''Client error: '' @ take 200 msg)) hopt"
| "on_exception L io url depth (OtherException msg) hopt =
     log_url L io url depth None None None (Some (''Error: '' @ take 200 msg)) hopt"

text \<open>
  \<^verbatim>\<open>crawl_url\<close> from its first suspension point on: the request, the classification of
  the outcome, the \<^verbatim>\<open>except\<close> clauses and the \<^verbatim>\<open>finally\<close> clause.
\<close>

definition crawl_finish ::
  "lib \<Rightarrow> args \<Rightarrow> attempt_env \<Rightarrow> string \<Rightarrow> string \<Rightarrow> int \<Rightarrow> crawl_state \<Rightarrow>
   (string \<times> int) list \<times> crawl_state" where
  "crawl_finish L A E url base_domain depth st =
     (case (case env_fetch E of
              FetchRaises e \<Rightarrow> ([], st, Some e)
            | Responded resp request_time \<Rightarrow>
                if resp_status resp = 200
                then on_success L A E url base_domain depth resp request_time st
                else ([],
                      st\<lparr>handler :=
                           log_url L (env_write E) url depth (Some (resp_status resp))
                             (resp_content_type resp) (Some request_time) None (handler st)\<rparr>,
                      None)) of
        (new_urls, st1, raised) \<Rightarrow>
          (new_urls,
           (case raised of
              None \<Rightarrow> st1
            | Some e \<Rightarrow>
                st1\<lparr>handler := on_exception L (env_write E) url depth e (handler st1)\<rparr>)
           \<lparr>pbar := pbar st1 + 1,
            shutdown_flag := shutdown_flag st1 \<or> env_sigint E \<noteq> None\<rparr>))"

text \<open>\<^verbatim>\<open>crawl_url\<close> as one call.\<close>

definition crawl_url ::
  "lib \<Rightarrow> args \<Rightarrow> attempt_env \<Rightarrow> string \<Rightarrow> string \<Rightarrow> int \<Rightarrow> crawl_state \<Rightarrow>
   (string \<times> int) list \<times> crawl_state" where
  "crawl_url L A E url base_domain depth st =
     (case crawl_enter url st of
        None \<Rightarrow> ([], st)
      | Some st1 \<Rightarrow> crawl_finish L A E url base_domain depth st1)"

section \<open>Frontier scheduler (the loop of main in crwlr\_async.py)\<close>

text \<open>
  The tasks of a batch run on one event loop. \<^verbatim>\<open>asyncio.gather\<close> starts them in the
  order of the batch and each runs without interruption up to its first suspension point,
  so the entries are admitted one after the other before any request is answered. The
  answers are then processed one task at a time; the model takes them in the order of the
  batch. The environment of the attempt on a URL is \<open>W url\<close>.
\<close>

fun admit_all ::
  "(string \<times> int) list \<Rightarrow> crawl_state \<Rightarrow> ((string \<times> int) \<times> bool) list \<times> crawl_state" where
  "admit_all [] st = ([], st)"
| "admit_all ((url, depth) # rest) st =
     (case crawl_enter url st of
        None \<Rightarrow>
          (case admit_all rest st of (flags, st') \<Rightarrow> (((url, depth), False) # flags, st'))
      | Some st1 \<Rightarrow>
          (case admit_all rest st1 of (flags, st') \<Rightarrow> (((url, depth), True) # flags, st')))"

fun finish_all ::
  "lib \<Rightarrow> args \<Rightarrow> (string \<Rightarrow> attempt_env) \<Rightarrow> string \<Rightarrow> ((string \<times> int) \<times> bool) list \<Rightarrow>
   crawl_state \<Rightarrow> (string \<times> int) list list \<times> crawl_state" where
  "finish_all L A W base_url [] st = ([], st)"
| "finish_all L A W base_url (((url, depth), admitted) # rest) st =
     (if admitted
      then (case crawl_finish L A (W url) url base_url depth st of
              (new_urls, st1) \<Rightarrow>
                (case finish_all L A W base_url rest st1 of
                   (results, st2) \<Rightarrow> (new_urls # results, st2)))
      else (case finish_all L A W base_url rest st of
              (results, st2) \<Rightarrow> ([] # results, st2)))"

definition run_batch ::
  "lib \<Rightarrow> args \<Rightarrow> (string \<Rightarrow> attempt_env) \<Rightarrow> string \<Rightarrow> (string \<times> int) list \<Rightarrow> crawl_state \<Rightarrow>
   (string \<times> int) list list \<times> crawl_state" where
  "run_batch L A W base_url batch st =
     (case admit_all batch st of (flags, st1) \<Rightarrow> finish_all L A W base_url flags st1)"

text \<open>
  One iteration of \<^verbatim>\<open>while urls_to_visit and not shutdown_flag\<close>; \<open>None\<close> when the
  loop ends. The batch is popped from the front of the list; the results are merged in the
  order of the batch, each filtered against \<^verbatim>\<open>visited_urls\<close> as it is after the batch.
\<close>

definition scheduler_step ::
  "lib \<Rightarrow> args \<Rightarrow> (string \<Rightarrow> attempt_env) \<Rightarrow> string \<Rightarrow> (string \<times> int) list \<times> crawl_state \<Rightarrow>
   ((string \<times> int) list \<times> crawl_state) option" where
  "scheduler_step L A W base_url s =
     (case s of (urls_to_visit, st) \<Rightarrow>
        if urls_to_visit = [] \<or> shutdown_flag st then None
        else
          (let batch_size = min (workers A * 2) (int (length urls_to_visit));
               batch = take (nat batch_size) urls_to_visit;
               remaining = drop (nat batch_size) urls_to_visit
           in case run_batch L A W base_url batch st of
                (results, st') \<Rightarrow>
                  Some (remaining @
                          concat (map (filter (\<lambda>u. fst u \<notin> visited_urls st')) results),
                        st')))"

text \<open>At most \<open>n\<close> iterations of the loop.\<close>

fun crawl_loop ::
  "nat \<Rightarrow> lib \<Rightarrow> args \<Rightarrow> (string \<Rightarrow> attempt_env) \<Rightarrow> string \<Rightarrow>
   (string \<times> int) list \<times> crawl_state \<Rightarrow> (string \<times> int) list \<times> crawl_state" where
  "crawl_loop 0 L A W base_url s = s"
| "crawl_loop (Suc n) L A W base_url s =
     (case scheduler_step L A W base_url s of
        None \<Rightarrow> s
      | Some s' \<Rightarrow> crawl_loop n L A W base_url s')"

text \<open>The state \<^verbatim>\<open>main\<close> starts the loop in, for a normalized base URL.\<close>

definition initial_state ::
  "string \<Rightarrow> buffer_handler option \<Rightarrow> (string \<times> int) list \<times> crawl_state" where
  "initial_state base_url hopt =
     ([(base_url, 0)],
      \<lparr>shutdown_flag = False, visited_urls = {}, found_subdomains = {}, found_paths = {},
       handler = hopt, pbar = 0\<rparr>)"

text \<open>\<^verbatim>\<open>status = 'interrupted' if shutdown_flag else 'completed'\<close>\<close>

definition final_status :: "crawl_state \<Rightarrow> string" where
  "final_status st = (if shutdown_flag st then ''interrupted'' else ''completed'')"

section \<open>Predicates used in the statements\<close>

text \<open>\<^verbatim>\<open>urlparse(url)\<close> returns, it does not raise.\<close>

definition parses :: "lib \<Rightarrow> string \<Rightarrow> bool" where
  "parses L url = (\<not> isl (urlparse (lib_valid_netloc L) url))"

text \<open>
  No exception leaves the branch \<^verbatim>\<open>response.status == 200\<close> of an attempt after the
  response was logged: the body is read and the links are processed without a raise.
\<close>

definition quiet_attempt ::
  "lib \<Rightarrow> args \<Rightarrow> attempt_env \<Rightarrow> string \<Rightarrow> string \<Rightarrow> int \<Rightarrow> crawl_state \<Rightarrow> bool" where
  "quiet_attempt L A E url base_domain depth st =
     (case env_fetch E of
        FetchRaises e \<Rightarrow> True
      | Responded resp request_time \<Rightarrow>
          resp_status resp \<noteq> 200 \<or>
          snd (snd (on_success L A E url base_domain depth resp request_time st)) = None)"

text \<open>The URLs of the url records of a buffer, in order.\<close>

definition recorded_urls :: "buffer_handler \<Rightarrow> string list" where
  "recorded_urls h = map rec_url (filter is_url_record (buffer h))"

text \<open>The URLs of the entries of a batch that were admitted, in the order of the batch.\<close>

definition admitted :: "((string \<times> int) \<times> bool) list \<Rightarrow> string list" where
  "admitted flags = map (fst \<circ> fst) (filter snd flags)"

text \<open>
  The entry \<open>i\<close> of a batch starts a fetch: its URL is neither in \<^verbatim>\<open>visited_urls\<close> as
  it is when the batch starts nor the URL of an earlier entry of the batch.
\<close>

definition first_visit :: "(string \<times> int) list \<Rightarrow> crawl_state \<Rightarrow> nat \<Rightarrow> bool" where
  "first_visit batch st i =
     (fst (batch ! i) \<notin> visited_urls st \<union> fst ` set (take i batch))"

text \<open>SIGINT arrives during the attempt of an entry that comes before the entry \<open>i\<close>.\<close>

definition signal_before ::
  "(string \<Rightarrow> attempt_env) \<Rightarrow> (string \<times> int) list \<Rightarrow> crawl_state \<Rightarrow> nat \<Rightarrow> bool" where
  "signal_before W batch st i =
     (\<exists>j<i. first_visit batch st j \<and> env_sigint (W (fst (batch ! j))) \<noteq> None)"

text \<open>
  The child entries of the worker of the entry \<open>i\<close> of a batch, by the claim's words: what
  \<^verbatim>\<open>crawl_url\<close> returns for the entry, from the state the batch starts in, when the entry
  starts a fetch and no signal has arrived before its answer is processed, and nothing
  otherwise.
\<close>

definition worker_children ::
  "lib \<Rightarrow> args \<Rightarrow> (string \<Rightarrow> attempt_env) \<Rightarrow> string \<Rightarrow> (string \<times> int) list \<Rightarrow> crawl_state \<Rightarrow>
   nat \<Rightarrow> (string \<times> int) list" where
  "worker_children L A W base_url batch st i =
     (if first_visit batch st i \<and> \<not> signal_before W batch st i
      then fst (crawl_url L A (W (fst (batch ! i))) (fst (batch ! i)) base_url
                  (snd (batch ! i)) st)
      else [])"

section \<open>A fixture site\<close>

text \<open>
  A small world to run the model on: every page of \<^verbatim>\<open>a.test\<close> answers 200 with an HTML
  body whose only anchor points to \<^verbatim>\<open>http://a.test/x\<close>; joining keeps an absolute
  reference as it is; no exclusion pattern matches; no write fails and no signal arrives.
\<close>

definition fixture_lib :: lib where
  "fixture_lib =
     \<lparr>lib_slash_fix = True,
      lib_valid_netloc = (\<lambda>loc. True),
      lib_urljoin = (\<lambda>base ref. Inr ref),
      lib_extract = (\<lambda>url. \<lparr>ext_subdomain = [], ext_domain = ''a'', ext_suffix = ''test''\<rparr>),
      lib_re_search = (\<lambda>pattern text. False)\<rparr>"

definition fixture_args :: args where
  "fixture_args =
     \<lparr>max_depth = 1, workers = 2, exclude_paths = None, exclude_subdomains = None\<rparr>"

definition fixture_world :: "string \<Rightarrow> attempt_env" where
  "fixture_world url =
     \<lparr>env_fetch =
        Responded
          \<lparr>resp_status = 200, resp_content_type = Some ''text/html'', resp_url = url,
           resp_json = JsonDecodeError, resp_hrefs = Inr [''http://a.test/x'']\<rparr> 5,
      env_write = IoOk, env_sigint = None\<rparr>"

text \<open>The same world with two anchors on every page, to \<^verbatim>\<open>http://a.test/x\<close> and to
  \<^verbatim>\<open>http://a.test/y\<close>.\<close>

definition fixture_world_xy :: "string \<Rightarrow> attempt_env" where
  "fixture_world_xy url =
     \<lparr>env_fetch =
        Responded
          \<lparr>resp_status = 200, resp_content_type = Some ''text/html'', resp_url = url,
           resp_json = JsonDecodeError,
           resp_hrefs = Inr [''http://a.test/x'', ''http://a.test/y'']\<rparr> 5,
      env_write = IoOk, env_sigint = None\<rparr>"

section \<open>Notions used in the proofs about URLs\<close>

text \<open>\<^verbatim>\<open>urlsplit\<close> finds a scheme in the string: the condition of \<open>split_scheme\<close>.\<close>

definition has_scheme :: "string \<Rightarrow> bool" where
  "has_scheme url =
     (CHR '':'' \<in> set url \<and> takeWhile (\<lambda>c. c \<noteq> CHR '':'') url \<noteq> [] \<and>
      ascii_alpha (hd (takeWhile (\<lambda>c. c \<noteq> CHR '':'') url)) \<and>
      list_all (\<lambda>c. c \<in> set scheme_chars) (takeWhile (\<lambda>c. c \<noteq> CHR '':'') url))"

text \<open>The split of the parameters as \<^verbatim>\<open>urlparse\<close> does it for a scheme that uses them.\<close>

definition split_params_of :: "string \<Rightarrow> string \<times> string" where
  "split_params_of u = (if CHR '';'' \<in> set u then splitparams u else (u, []))"

text \<open>The path with its parameters as \<^verbatim>\<open>urlunparse\<close> writes it.\<close>

definition join_params :: "string \<times> string \<Rightarrow> string" where
  "join_params c = (case c of (pth, prm) \<Rightarrow> if prm \<noteq> [] then pth @ '';'' @ prm else pth)"

text \<open>The condition under which \<^verbatim>\<open>urlunsplit\<close> writes the two slashes, in a release
  with \<open>slash_fix\<close>.\<close>

definition uses_slashes :: "string \<Rightarrow> string \<Rightarrow> string \<Rightarrow> bool" where
  "uses_slashes sch loc u =
     (loc \<noteq> [] \<or> (sch \<noteq> [] \<and> sch \<in> set uses_netloc) \<or> take 2 u = ''//'')"

text \<open>The path as \<^verbatim>\<open>urlunsplit\<close> writes it after the network location.\<close>

definition rooted :: "string \<Rightarrow> string \<Rightarrow> string \<Rightarrow> string" where
  "rooted sch loc u =
     (if uses_slashes sch loc u \<and> u \<noteq> [] \<and> hd u \<noteq> CHR ''/'' then CHR ''/'' # u else u)"

section \<open>Properties of the buffer handler\<close>

lemma buffer_add_record: "buffer (add_record io r h) = buffer h @ [r]"
  by (cases io) (simp_all add: add_record_def write_buffer_to_json_def)

lemma buffer_add_records: "buffer (add_records rs h) = buffer h @ map snd rs"
  by (induction rs arbitrary: h) (auto simp: buffer_add_record)

lemma buffer_file_add_record_ok:
  "buffer_file (add_record IoOk r h) = Some (buffer h @ [r])"
  by (simp add: add_record_def write_buffer_to_json_def)

lemma insert_to_database_raises:
  "data \<noteq> [] \<Longrightarrow> insert_to_database DbRaises data = Inl (OtherException ''database error'')"
proof -
  assume "data \<noteq> []"
  then obtain r rs where d: "data = r # rs" by (cases data) auto
  show ?thesis by (cases "is_url_record r") (simp_all add: d insert_to_database_def)
qed

lemma remove_buffer_file_gone:
  "remove_buffer_file rm h = Inr h' \<Longrightarrow> buffer_file h' = None \<and> buffer h' = buffer h"
  by (auto simp: remove_buffer_file_def split: option.splits io_result.splits)

lemma flush_raises:
  "buffer h \<noteq> [] \<Longrightarrow> flush DbRaises rm h = (0, h\<lparr>buffer := buffer h @ buffer h\<rparr>)"
  by (simp add: flush_def Let_def insert_to_database_raises)

lemma flush_cases:
  "flush db rm h = (n, h') \<Longrightarrow>
     (buffer h' = [] \<and> buffer_file h' = None) \<or>
     (n = 0 \<and> buffer_file h' = buffer_file h \<and> set (buffer h) \<subseteq> set (buffer h')
        \<and> (buffer h \<noteq> [] \<longrightarrow> buffer h' \<noteq> []))"
  by (auto simp: flush_def Let_def remove_buffer_file_def
           split: if_splits sum.splits option.splits io_result.splits)

lemma final_flush_returns:
  "\<exists>n h'. final_flush db rm IoOk h = Inr (n, h')"
  by (cases "flush db rm h")
     (auto simp: final_flush_def remove_buffer_file_def split: option.splits)

lemma final_flush_result:
  assumes "final_flush db rm rm' h = Inr (n, h')"
  shows "buffer_file h' = None"
    and "db = DbRaises \<Longrightarrow> buffer h \<noteq> [] \<Longrightarrow>
           n = 0 \<and> buffer h' \<noteq> [] \<and> set (buffer h) \<subseteq> set (buffer h')"
proof -
  obtain k h1 where f: "flush db rm h = (k, h1)" by (cases "flush db rm h")
  with assms have r: "remove_buffer_file rm' h1 = Inr h'" and k: "k = n"
    by (auto simp: final_flush_def split: sum.splits)
  from remove_buffer_file_gone [OF r] show "buffer_file h' = None" by simp
  assume "db = DbRaises" and "buffer h \<noteq> []"
  with f flush_raises [of h rm] have "k = 0" and "buffer h1 = buffer h @ buffer h" by auto
  with remove_buffer_file_gone [OF r] k \<open>buffer h \<noteq> []\<close>
  show "n = 0 \<and> buffer h' \<noteq> [] \<and> set (buffer h) \<subseteq> set (buffer h')" by simp
qed

section \<open>Claims about the buffer handler\<close>

text \<open>
  C2. The claim: when a flush fails because the sink raises on the insert, the buffer is left
  with exactly the contents it had before. The code does otherwise: the insert raises before
  \<^verbatim>\<open>self.buffer.clear()\<close>, and the handler's "re-add" then appends the copy to the
  unchanged buffer. A buffer holding one record holds that record twice after the failed
  flush.
\<close>

theorem flush_failure_duplicates_buffer:
  "flush DbRaises IoOk
     (add_url_record IoOk ''http://a.test/'' ''http://a.test/'' ''a.test'' ''/'' 0
        (Some 200) (Some ''text/html'') (Some 12) None (init_handler 1 100 None))
   = (0, \<lparr>session_id = 1, buffer_limit = 100,
          buffer =
            [UrlRecord 1 ''http://a.test/'' ''http://a.test/'' ''a.test'' ''/'' 0
               (Some 200) (Some ''text/html'') (Some 12) None,
             UrlRecord 1 ''http://a.test/'' ''http://a.test/'' ''a.test'' ''/'' 0
               (Some 200) (Some ''text/html'') (Some 12) None],
          flush_count = 0, total_flushed = 0,
          buffer_file =
            Some [UrlRecord 1 ''http://a.test/'' ''http://a.test/'' ''a.test'' ''/'' 0
                    (Some 200) (Some ''text/html'') (Some 12) None]\<rparr>)"
  by (simp add: flush_def Let_def insert_to_database_def add_url_record_def add_record_def
        write_buffer_to_json_def init_handler_def)

text \<open>
  C3, as amended. After a run of appends whose last mirror write succeeded, the mirror file
  holds exactly the in-memory buffer, in order, and the buffer is the old buffer followed by
  the appended records in the order of the calls. Started from an empty buffer, the mirror
  holds exactly the appended records.
\<close>

theorem mirror_holds_buffer_after_written_append:
  assumes "rs \<noteq> []" and "fst (last rs) = IoOk"
  shows "buffer_file (add_records rs h) = Some (buffer (add_records rs h)) \<and>
         buffer (add_records rs h) = buffer h @ map snd rs"
  using assms
proof (induction rs arbitrary: h)
  case Nil
  then show ?case by simp
next
  case (Cons x rs)
  obtain io r where x: "x = (io, r)" by (cases x)
  show ?case
  proof (cases "rs = []")
    case True
    with Cons.prems x show ?thesis
      by (simp add: buffer_file_add_record_ok buffer_add_record)
  next
    case False
    with Cons.prems have "fst (last rs) = IoOk" by simp
    from Cons.IH [OF False this, of "add_record io r h"] x show ?thesis
      by (simp add: buffer_add_record)
  qed
qed

theorem mirror_holds_buffer_after_written_append_witness:
  "buffer_file
     (add_records
        [(IoError, SubdomainRecord 1 ''api.a.test'' ''a.test''),
         (IoOk, SubdomainRecord 1 ''dev.a.test'' ''a.test'')]
        (init_handler 1 100 None))
   = Some [SubdomainRecord 1 ''api.a.test'' ''a.test'',
           SubdomainRecord 1 ''dev.a.test'' ''a.test'']"
  using mirror_holds_buffer_after_written_append
    [of "[(IoError, SubdomainRecord 1 ''api.a.test'' ''a.test''),
          (IoOk, SubdomainRecord 1 ''dev.a.test'' ''a.test'')]"
        "init_handler 1 100 None"]
  by (simp add: init_handler_def)

text \<open>
  C3, the counterexample to the claim as stated: the write of the mirror raises (the handler
  logs a warning and goes on), the record is in the buffer and the mirror does not hold it.
\<close>

theorem mirror_stale_after_failed_write:
  "buffer (add_record IoError (SubdomainRecord 1 ''api.a.test'' ''a.test'')
             (init_handler 1 100 None))
     = [SubdomainRecord 1 ''api.a.test'' ''a.test''] \<and>
   buffer_file (add_record IoError (SubdomainRecord 1 ''api.a.test'' ''a.test'')
                  (init_handler 1 100 None))
     \<noteq> Some (buffer (add_record IoError (SubdomainRecord 1 ''api.a.test'' ''a.test'')
                       (init_handler 1 100 None)))"
  by (simp add: add_record_def write_buffer_to_json_def init_handler_def)

text \<open>
  C10. \<^verbatim>\<open>final_flush\<close> returns whenever its own \<^verbatim>\<open>os.remove\<close> does not raise, and
  whenever it returns the mirror file does not exist. That holds also when the insert raised:
  the flush then reports 0, the buffer is still non-empty and keeps every record, and the
  records are in memory only.
\<close>

theorem final_flush_always_removes_mirror:
  "(\<exists>n h'. final_flush db rm IoOk h = Inr (n, h')) \<and>
   (\<forall>n h'. final_flush db rm rm' h = Inr (n, h') \<longrightarrow>
      buffer_file h' = None \<and>
      (db = DbRaises \<and> buffer h \<noteq> [] \<longrightarrow>
         n = 0 \<and> buffer h' \<noteq> [] \<and> set (buffer h) \<subseteq> set (buffer h')))"
  using final_flush_returns [of db rm h] final_flush_result [of db rm rm' h]
  by blast

theorem final_flush_always_removes_mirror_witness:
  "\<exists>h'. final_flush DbRaises IoOk IoOk
          (add_subdomain_record IoOk ''api.a.test'' ''a.test'' (init_handler 1 100 None))
        = Inr (0, h') \<and>
        buffer_file h' = None \<and> buffer h' \<noteq> []"
proof -
  let ?h = "add_subdomain_record IoOk ''api.a.test'' ''a.test'' (init_handler 1 100 None)"
  have b: "buffer ?h \<noteq> []"
    by (simp add: add_subdomain_record_def add_record_def write_buffer_to_json_def)
  from final_flush_always_removes_mirror [of DbRaises IoOk ?h IoOk]
  obtain n h' where r: "final_flush DbRaises IoOk IoOk ?h = Inr (n, h')" by blast
  with final_flush_always_removes_mirror [of DbRaises IoOk ?h IoOk] b
  have "buffer_file h' = None \<and> n = 0 \<and> buffer h' \<noteq> []" by blast
  with r show ?thesis by blast
qed

section \<open>Claims about the URL classifier and the link extractor\<close>

text \<open>
  C6. The claim: every string of the JSON tree that begins with \<^verbatim>\<open>http://\<close>,
  \<^verbatim>\<open>https://\<close> or \<^verbatim>\<open>/\<close> is a candidate, whether it is a dict value or sits in
  a list. The code looks at strings only when they are values of a dict: for a list it calls
  itself on every element, and the call on a string returns the empty list. The links of
  \<^verbatim>\<open>{"links": ["https://a.test/x", "/y"]}\<close> are not found, whatever the library does.
\<close>

theorem extract_urls_from_json_misses_strings_in_lists:
  "extract_urls_from_json L
     (JDict [(''links'', JList [JString ''https://a.test/x'', JString ''/y''])])
     ''https://a.test/'' = Inr []"
  by simp

text \<open>
  C9. \<^verbatim>\<open>get_subdomain\<close> returns \<^verbatim>\<open>subdomain.domain.suffix\<close> of the extraction when
  the subdomain is neither empty nor the bare \<^verbatim>\<open>www\<close>, and \<^verbatim>\<open>None\<close> otherwise. With
  the decomposition tldextract gives for the three URLs of the claim, the results are the
  ones the claim states.
\<close>

theorem get_subdomain_below_registrable_domain:
  assumes "extract ''https://api.example.com/x'' =
             \<lparr>ext_subdomain = ''api'', ext_domain = ''example'', ext_suffix = ''com''\<rparr>"
    and "extract ''https://www.example.com'' =
             \<lparr>ext_subdomain = ''www'', ext_domain = ''example'', ext_suffix = ''com''\<rparr>"
    and "extract ''https://example.com'' =
             \<lparr>ext_subdomain = [], ext_domain = ''example'', ext_suffix = ''com''\<rparr>"
  shows "get_subdomain extract ''https://api.example.com/x'' = Some ''api.example.com'' \<and>
         get_subdomain extract ''https://www.example.com'' = None \<and>
         get_subdomain extract ''https://example.com'' = None \<and>
         (\<forall>url. (get_subdomain extract url = None) =
                  (ext_subdomain (extract url) = [] \<or> ext_subdomain (extract url) = ''www'')) \<and>
         (\<forall>url s. get_subdomain extract url = Some s \<longrightarrow>
                  s = ext_subdomain (extract url) @ ''.'' @ ext_domain (extract url) @ ''.''
                        @ ext_suffix (extract url))"
  using assms by (auto simp: get_subdomain_def Let_def)

theorem get_subdomain_below_registrable_domain_witness:
  "get_subdomain
     (\<lambda>url. if url = ''https://api.example.com/x''
             then \<lparr>ext_subdomain = ''api'', ext_domain = ''example'', ext_suffix = ''com''\<rparr>
             else if url = ''https://www.example.com''
             then \<lparr>ext_subdomain = ''www'', ext_domain = ''example'', ext_suffix = ''com''\<rparr>
             else \<lparr>ext_subdomain = [], ext_domain = ''example'', ext_suffix = ''com''\<rparr>)
     ''https://api.example.com/x'' = Some ''api.example.com''"
  using get_subdomain_below_registrable_domain
    [of "\<lambda>url. if url = ''https://api.example.com/x''
             then \<lparr>ext_subdomain = ''api'', ext_domain = ''example'', ext_suffix = ''com''\<rparr>
             else if url = ''https://www.example.com''
             then \<lparr>ext_subdomain = ''www'', ext_domain = ''example'', ext_suffix = ''com''\<rparr>
             else \<lparr>ext_subdomain = [], ext_domain = ''example'', ext_suffix = ''com''\<rparr>"]
  by simp

section \<open>Properties of the fetch worker and the scheduler\<close>

lemma process_potential_urls_new:
  "process_potential_urls L A b d cs acc = ((subs', new'), r) \<Longrightarrow> e \<in> set new' \<Longrightarrow>
     e \<in> set (snd acc) \<or> (snd e = d + 1 \<and> d < max_depth A \<and> parses L (fst e))"
proof (induction L A b d cs acc arbitrary: subs' new' r rule: process_potential_urls.induct)
  case (1 L A b d acc)
  then show ?case by auto
next
  case (2 L A b d normalized rest subs new_urls)
  show ?case
  proof (cases "urlparse (lib_valid_netloc L) normalized")
    case (Inl e)
    with "2.prems" show ?thesis by auto
  next
    case (Inr parsed)
    note P = Inr
    then have pn: "parses L normalized" by (simp add: parses_def)
    show ?thesis
    proof (cases "scheme parsed \<noteq> ''http'' \<and> scheme parsed \<noteq> ''https''")
      case True
      from "2.prems" P True
      have "process_potential_urls L A b d rest (subs, new_urls) = ((subs', new'), r)" by simp
      from "2.IH"(1) [OF P True this "2.prems"(2)] show ?thesis by simp
    next
      case False
      note S = False
      show ?thesis
      proof (cases "should_exclude L normalized (exclude_paths A) (exclude_subdomains A)")
        case (Inl e)
        with "2.prems" P S show ?thesis by auto
      next
        case (Inr x)
        note X = Inr
        show ?thesis
        proof (cases x)
          case True
          from "2.prems" P S X True
          have "process_potential_urls L A b d rest (subs, new_urls) = ((subs', new'), r)" by simp
          from "2.IH"(2) [OF P S X _ this "2.prems"(2)] True show ?thesis by simp
        next
          case False
          then have xf: "x = False" by simp
          show ?thesis
          proof (cases "is_same_domain (lib_extract L) normalized b")
            case True
            from "2.prems" P S X xf True
            have "process_potential_urls L A b d rest
                    ((case get_subdomain (lib_extract L) normalized of
                        None \<Rightarrow> subs | Some subdomain \<Rightarrow> insert subdomain subs),
                     (if d < max_depth A then new_urls @ [(normalized, d + 1)] else new_urls))
                  = ((subs', new'), r)" by simp
            from "2.IH"(3) [OF P S X xf True this "2.prems"(2)] pn show ?thesis
              by (auto split: if_splits)
          next
            case False
            from "2.prems" P S X xf False
            have "process_potential_urls L A b d rest (subs, new_urls) = ((subs', new'), r)" by simp
            from "2.IH"(4) [OF P S X xf False this "2.prems"(2)] show ?thesis by simp
          qed
        qed
      qed
    qed
  qed
qed

lemma on_success_shape:
  assumes "on_success L A E url b d resp rt st = (new, st', r)"
  shows "visited_urls st' = visited_urls st \<and> shutdown_flag st' = shutdown_flag st \<and>
         pbar st' = pbar st \<and>
         handler st' = log_url L (env_write E) url d (Some (resp_status resp))
                         (resp_content_type resp) (Some rt) None (handler st) \<and>
         (new = [] \<or> (\<exists>cands subs0 subs1.
              process_potential_urls L A b d cands (subs0, []) = ((subs1, new), r)))"
proof -
  obtain ex sig' where x: "extract_links L url resp
        (if shutdown_flag st then Some 0 else env_sigint E) = (ex, sig')"
    by (cases "extract_links L url resp (if shutdown_flag st then Some 0 else env_sigint E)")
  show ?thesis
  proof (cases ex)
    case (Inl e)
    with assms x show ?thesis by (auto simp: on_success_def Let_def)
  next
    case (Inr potential_urls)
    with assms x show ?thesis
      by (auto simp: on_success_def Let_def split: prod.splits)
  qed
qed

lemma on_success_new:
  assumes "on_success L A E url b d resp rt st = (new, st', r)" and "e \<in> set new"
  shows "snd e = d + 1 \<and> d < max_depth A \<and> parses L (fst e)"
proof -
  from on_success_shape [OF assms(1)] assms(2)
  obtain cands subs0 subs1 where
    "process_potential_urls L A b d cands (subs0, []) = ((subs1, new), r)" by auto
  from process_potential_urls_new [OF this assms(2)] show ?thesis by simp
qed

lemma log_url_None: "log_url L io url d s c t m None = None"
  by (simp add: log_url_def)

lemma log_url_grows:
  assumes "parses L url"
  shows "\<exists>h' r. log_url L io url d s c t m (Some h) = Some h' \<and>
           buffer h' = buffer h @ [r] \<and> is_url_record r \<and> rec_url r = url"
proof -
  from assms obtain p where p: "urlparse (lib_valid_netloc L) url = Inr p"
    by (cases "urlparse (lib_valid_netloc L) url") (auto simp: parses_def)
  let ?r = "UrlRecord (session_id h) url
              (urlunparse (lib_slash_fix L) (scheme p, netloc p, path p, params p, query p, []))
              (netloc p) (path p) d s c t m"
  from p have "log_url L io url d s c t m (Some h) = Some (add_record io ?r h)"
    by (simp add: log_url_def normalize_url_def add_url_record_def)
  moreover have "buffer (add_record io ?r h) = buffer h @ [?r]"
    by (rule buffer_add_record)
  ultimately show ?thesis by (intro exI [of _ "add_record io ?r h"] exI [of _ ?r]) simp
qed

lemma on_exception_log:
  "\<exists>m. on_exception L io url d e hopt = log_url L io url d None None None (Some m) hopt"
  by (cases e) auto

lemma crawl_finish_frame:
  assumes "crawl_finish L A E url b d st = (new, st')"
  shows "visited_urls st' = visited_urls st \<and> pbar st' = pbar st + 1 \<and>
         shutdown_flag st' = (shutdown_flag st \<or> env_sigint E \<noteq> None) \<and>
         (\<forall>e\<in>set new. snd e = d + 1 \<and> d < max_depth A \<and> parses L (fst e))"
proof (cases "env_fetch E")
  case (FetchRaises e)
  with assms show ?thesis by (auto simp: crawl_finish_def)
next
  case (Responded resp rt)
  show ?thesis
  proof (cases "resp_status resp = 200")
    case False
    with assms Responded show ?thesis by (auto simp: crawl_finish_def)
  next
    case True
    obtain new1 st1 raised where
      os: "on_success L A E url b d resp rt st = (new1, st1, raised)"
      by (cases "on_success L A E url b d resp rt st")
    note sh = on_success_shape [OF os]
    have nw: "\<forall>e\<in>set new1. snd e = d + 1 \<and> d < max_depth A \<and> parses L (fst e)"
      using on_success_new [OF os] by blast
    from assms Responded True os sh nw show ?thesis
      by (cases raised) (auto simp: crawl_finish_def)
  qed
qed

lemma crawl_finish_handler:
  assumes "crawl_finish L A E url b d st = (new, st')"
  shows "(\<exists>s c t m. handler st' = log_url L (env_write E) url d s c t m (handler st)) \<or>
         (\<not> quiet_attempt L A E url b d st \<and>
          (\<exists>s c t m s' c' t' m'. handler st' =
              log_url L (env_write E) url d s' c' t' m'
                (log_url L (env_write E) url d s c t m (handler st))))"
proof (cases "env_fetch E")
  case (FetchRaises e)
  from on_exception_log [of L "env_write E" url d e "handler st"]
  obtain m where "on_exception L (env_write E) url d e (handler st)
                  = log_url L (env_write E) url d None None None (Some m) (handler st)" ..
  with assms FetchRaises
  have "handler st' = log_url L (env_write E) url d None None None (Some m) (handler st)"
    by (auto simp: crawl_finish_def)
  then show ?thesis by blast
next
  case (Responded resp rt)
  show ?thesis
  proof (cases "resp_status resp = 200")
    case False
    with assms Responded
    have "handler st' = log_url L (env_write E) url d (Some (resp_status resp))
                          (resp_content_type resp) (Some rt) None (handler st)"
      by (auto simp: crawl_finish_def)
    then show ?thesis by blast
  next
    case True
    obtain new1 st1 raised where
      os: "on_success L A E url b d resp rt st = (new1, st1, raised)"
      by (cases "on_success L A E url b d resp rt st")
    from on_success_shape [OF os]
    have h1: "handler st1 = log_url L (env_write E) url d (Some (resp_status resp))
                          (resp_content_type resp) (Some rt) None (handler st)" by simp
    show ?thesis
    proof (cases raised)
      case None
      with assms Responded True os have "handler st' = handler st1"
        by (auto simp: crawl_finish_def)
      with h1 have "handler st' = log_url L (env_write E) url d (Some (resp_status resp))
                          (resp_content_type resp) (Some rt) None (handler st)" by simp
      then show ?thesis by blast
    next
      case (Some e)
      from on_exception_log [of L "env_write E" url d e "handler st1"]
      obtain m where "on_exception L (env_write E) url d e (handler st1)
                  = log_url L (env_write E) url d None None None (Some m) (handler st1)" ..
      with assms Responded True os Some
      have "handler st' = log_url L (env_write E) url d None None None (Some m) (handler st1)"
        by (auto simp: crawl_finish_def)
      with h1 have "handler st' = log_url L (env_write E) url d None None None (Some m)
                      (log_url L (env_write E) url d (Some (resp_status resp))
                          (resp_content_type resp) (Some rt) None (handler st))" by simp
      moreover have "\<not> quiet_attempt L A E url b d st"
        using Responded True os Some by (simp add: quiet_attempt_def)
      ultimately show ?thesis by blast
    qed
  qed
qed

lemma crawl_finish_no_handler:
  assumes "crawl_finish L A E url b d st = (new, st')" and "handler st = None"
  shows "handler st' = None"
  using crawl_finish_handler [OF assms(1)] assms(2) by (auto simp: log_url_None)

lemma crawl_finish_records:
  assumes "crawl_finish L A E url b d st = (new, st')"
    and "handler st = Some h" and "parses L url"
  shows "\<exists>h' r rs. handler st' = Some h' \<and> buffer h' = buffer h @ r # rs \<and>
           (\<forall>x\<in>set (r # rs). is_url_record x \<and> rec_url x = url) \<and>
           length rs \<le> 1 \<and> (quiet_attempt L A E url b d st \<longrightarrow> rs = [])"
proof -
  from crawl_finish_handler [OF assms(1)]
  consider (one) s c t m where
      "handler st' = log_url L (env_write E) url d s c t m (handler st)"
    | (two) s c t m s' c' t' m' where "\<not> quiet_attempt L A E url b d st"
      "handler st' = log_url L (env_write E) url d s' c' t' m'
                       (log_url L (env_write E) url d s c t m (handler st))"
    by blast
  then show ?thesis
  proof cases
    case one
    from log_url_grows [OF assms(3), of "env_write E" d s c t m h]
    obtain h' r where "log_url L (env_write E) url d s c t m (Some h) = Some h'"
      "buffer h' = buffer h @ [r]" "is_url_record r" "rec_url r = url" by blast
    with one assms(2) show ?thesis
      by (intro exI [of _ h'] exI [of _ r] exI [of _ "[]"]) simp
  next
    case two
    from log_url_grows [OF assms(3), of "env_write E" d s c t m h]
    obtain h1 r where 1: "log_url L (env_write E) url d s c t m (Some h) = Some h1"
      "buffer h1 = buffer h @ [r]" "is_url_record r" "rec_url r = url" by blast
    from log_url_grows [OF assms(3), of "env_write E" d s' c' t' m' h1]
    obtain h2 r' where 2: "log_url L (env_write E) url d s' c' t' m' (Some h1) = Some h2"
      "buffer h2 = buffer h1 @ [r']" "is_url_record r'" "rec_url r' = url" by blast
    from two 1 2 assms(2) show ?thesis
      by (intro exI [of _ h2] exI [of _ r] exI [of _ "[r']"]) simp
  qed
qed

lemma crawl_enter_Some:
  "crawl_enter url st = Some st1 \<Longrightarrow>
     \<not> shutdown_flag st \<and> url \<notin> visited_urls st \<and>
     st1 = st\<lparr>visited_urls := insert url (visited_urls st)\<rparr>"
  by (auto simp: crawl_enter_def split: if_splits)

lemma crawl_enter_None:
  "crawl_enter url st = None \<Longrightarrow> shutdown_flag st \<or> url \<in> visited_urls st"
  by (auto simp: crawl_enter_def split: if_splits)

lemma admitted_simps:
  "admitted [] = []"
  "admitted (((u, d), True) # fl) = u # admitted fl"
  "admitted (((u, d), False) # fl) = admitted fl"
  by (simp_all add: admitted_def)

lemma admit_all_props:
  "admit_all batch st = (flags, st') \<Longrightarrow>
     map fst flags = batch \<and>
     shutdown_flag st' = shutdown_flag st \<and> handler st' = handler st \<and>
     visited_urls st' = visited_urls st \<union> set (admitted flags) \<and>
     distinct (admitted flags) \<and> set (admitted flags) \<inter> visited_urls st = {} \<and>
     (shutdown_flag st \<longrightarrow> admitted flags = []) \<and>
     (\<not> shutdown_flag st \<longrightarrow> fst ` set batch \<subseteq> visited_urls st')"
proof (induction batch arbitrary: st flags st')
  case Nil
  then show ?case by (auto simp: admitted_simps)
next
  case (Cons e batch)
  obtain url depth where e: "e = (url, depth)" by (cases e)
  show ?case
  proof (cases "crawl_enter url st")
    case None
    obtain fl st2 where r: "admit_all batch st = (fl, st2)" by (cases "admit_all batch st")
    from Cons.prems e None r have fl: "flags = ((url, depth), False) # fl" and st2: "st2 = st'"
      by auto
    from Cons.IH [OF r] crawl_enter_None [OF None]
    show ?thesis unfolding fl st2 e by (simp add: admitted_simps) blast
  next
    case (Some st1)
    obtain fl st2 where r: "admit_all batch st1 = (fl, st2)" by (cases "admit_all batch st1")
    from Cons.prems e Some r have fl: "flags = ((url, depth), True) # fl" and st2: "st2 = st'"
      by auto
    from crawl_enter_Some [OF Some]
    have 1: "\<not> shutdown_flag st" "url \<notin> visited_urls st"
      "visited_urls st1 = insert url (visited_urls st)"
      "shutdown_flag st1 = shutdown_flag st" "handler st1 = handler st" by auto
    from Cons.IH [OF r] 1
    show ?thesis unfolding fl st2 e by (simp add: admitted_simps) blast
  qed
qed

lemma finish_all_frame:
  "finish_all L A W b flags st = (results, st') \<Longrightarrow>
     length results = length flags \<and> visited_urls st' = visited_urls st \<and>
     (shutdown_flag st \<longrightarrow> shutdown_flag st') \<and>
     (handler st = None \<longrightarrow> handler st' = None)"
proof (induction flags arbitrary: st results st')
  case Nil
  then show ?case by auto
next
  case (Cons f flags)
  obtain url depth a where f: "f = ((url, depth), a)" by (cases f) auto
  show ?case
  proof (cases a)
    case False
    obtain rs st2 where r: "finish_all L A W b flags st = (rs, st2)"
      by (cases "finish_all L A W b flags st")
    from Cons.prems f False r have "results = [] # rs" "st2 = st'" by auto
    with Cons.IH [OF r] show ?thesis by simp
  next
    case True
    obtain new st1 where c: "crawl_finish L A (W url) url b depth st = (new, st1)"
      by (cases "crawl_finish L A (W url) url b depth st")
    obtain rs st2 where r: "finish_all L A W b flags st1 = (rs, st2)"
      by (cases "finish_all L A W b flags st1")
    from Cons.prems f True c r have "results = new # rs" "st2 = st'" by auto
    with crawl_finish_frame [OF c] crawl_finish_no_handler [OF c] Cons.IH [OF r]
    show ?thesis by simp
  qed
qed

lemma finish_all_results:
  "finish_all L A W b flags st = (results, st') \<Longrightarrow> new \<in> set results \<Longrightarrow>
     e \<in> set new \<Longrightarrow> parses L (fst e) \<and> snd e \<le> max_depth A"
proof (induction flags arbitrary: st results st')
  case Nil
  then show ?case by auto
next
  case (Cons f flags)
  obtain url depth a where f: "f = ((url, depth), a)" by (cases f) auto
  show ?case
  proof (cases a)
    case False
    obtain rs st2 where r: "finish_all L A W b flags st = (rs, st2)"
      by (cases "finish_all L A W b flags st")
    from Cons.prems f False r have "results = [] # rs" by auto
    with Cons.prems(2,3) have "new \<in> set rs" by auto
    from Cons.IH [OF r this Cons.prems(3)] show ?thesis .
  next
    case True
    obtain new1 st1 where c: "crawl_finish L A (W url) url b depth st = (new1, st1)"
      by (cases "crawl_finish L A (W url) url b depth st")
    obtain rs st2 where r: "finish_all L A W b flags st1 = (rs, st2)"
      by (cases "finish_all L A W b flags st1")
    from Cons.prems f True c r have "results = new1 # rs" by auto
    with Cons.prems(2) consider "new = new1" | "new \<in> set rs" by auto
    then show ?thesis
    proof cases
      case 1
      with crawl_finish_frame [OF c] Cons.prems(3)
      have "snd e = depth + 1 \<and> depth < max_depth A \<and> parses L (fst e)" by blast
      then show ?thesis by simp
    next
      case 2
      from Cons.IH [OF r this Cons.prems(3)] show ?thesis .
    qed
  qed
qed

lemma finish_all_records:
  assumes Q: "\<forall>url d st. quiet_attempt L A (W url) url b d st"
  shows "finish_all L A W b flags st = (results, st') \<Longrightarrow> handler st = Some h \<Longrightarrow>
     \<forall>u\<in>set (admitted flags). parses L u \<Longrightarrow>
     \<exists>h'. handler st' = Some h' \<and> recorded_urls h' = recorded_urls h @ admitted flags"
proof (induction flags arbitrary: st results st' h)
  case Nil
  then show ?case by (auto simp: admitted_simps)
next
  case (Cons f flags)
  obtain url depth a where f: "f = ((url, depth), a)" by (cases f) auto
  show ?case
  proof (cases a)
    case False
    obtain rs st2 where r: "finish_all L A W b flags st = (rs, st2)"
      by (cases "finish_all L A W b flags st")
    from Cons.prems f False r have "st2 = st'" by auto
    moreover from Cons.prems(3) f False have "\<forall>u\<in>set (admitted flags). parses L u"
      by (simp add: admitted_simps)
    ultimately show ?thesis
      using Cons.IH [OF r Cons.prems(2)] f False by (simp add: admitted_simps)
  next
    case True
    obtain new st1 where c: "crawl_finish L A (W url) url b depth st = (new, st1)"
      by (cases "crawl_finish L A (W url) url b depth st")
    obtain rs st2 where r: "finish_all L A W b flags st1 = (rs, st2)"
      by (cases "finish_all L A W b flags st1")
    from Cons.prems f True c r have st2: "st2 = st'" by auto
    from Cons.prems(3) f True have pu: "parses L url"
      and pr: "\<forall>u\<in>set (admitted flags). parses L u" by (simp_all add: admitted_simps)
    from crawl_finish_records [OF c Cons.prems(2) pu] Q
    obtain h1 r1 where h1: "handler st1 = Some h1" "buffer h1 = buffer h @ [r1]"
      "is_url_record r1" "rec_url r1 = url" by auto
    then have "recorded_urls h1 = recorded_urls h @ [url]" by (simp add: recorded_urls_def)
    with Cons.IH [OF r h1(1) pr] st2 f True show ?thesis by (simp add: admitted_simps)
  qed
qed

lemma scheduler_step_None:
  "scheduler_step L A W b (pending, st) = None \<longleftrightarrow> pending = [] \<or> shutdown_flag st"
  by (auto simp: scheduler_step_def Let_def split: prod.splits)

lemma scheduler_step_Some:
  assumes "scheduler_step L A W b (pending, st) = Some (pending', st')"
  shows "pending \<noteq> [] \<and> \<not> shutdown_flag st \<and>
         (\<exists>flags st1 results.
            admit_all (take (nat (min (workers A * 2) (int (length pending)))) pending) st
              = (flags, st1) \<and>
            finish_all L A W b flags st1 = (results, st') \<and>
            pending' = drop (nat (min (workers A * 2) (int (length pending)))) pending @
               concat (map (filter (\<lambda>u. fst u \<notin> visited_urls st')) results))"
  using assms
  by (auto simp: scheduler_step_def run_batch_def Let_def split: prod.splits if_splits)

lemma process_potential_urls_children:
  "snd (fst (process_potential_urls L A b d cs (subs, new))) =
   snd (fst (process_potential_urls L A b d cs (subs2, new)))"
proof (induction cs arbitrary: subs subs2 new)
  case Nil
  then show ?case by simp
next
  case (Cons c cs)
  show ?case
  proof (cases "urlparse (lib_valid_netloc L) c")
    case (Inl e)
    then show ?thesis by simp
  next
    case (Inr parsed)
    note P = Inr
    show ?thesis
    proof (cases "scheme parsed \<noteq> ''http'' \<and> scheme parsed \<noteq> ''https''")
      case True
      with P Cons.IH [of subs new subs2] show ?thesis by simp
    next
      case False
      note S = False
      show ?thesis
      proof (cases "should_exclude L c (exclude_paths A) (exclude_subdomains A)")
        case (Inl e)
        with P S show ?thesis by auto
      next
        case (Inr x)
        note X = Inr
        show ?thesis
        proof (cases x)
          case True
          with P S X Cons.IH [of subs new subs2] show ?thesis by auto
        next
          case False
          note xf = False
          show ?thesis
          proof (cases "is_same_domain (lib_extract L) c b")
            case True
            from P S X xf True
              Cons.IH [of "case get_subdomain (lib_extract L) c of
                             None \<Rightarrow> subs | Some subdomain \<Rightarrow> insert subdomain subs"
                          "if d < max_depth A then new @ [(c, d + 1)] else new"
                          "case get_subdomain (lib_extract L) c of
                             None \<Rightarrow> subs2 | Some subdomain \<Rightarrow> insert subdomain subs2"]
            show ?thesis by auto
          next
            case False
            with P S X xf Cons.IH [of subs new subs2] show ?thesis by auto
          qed
        qed
      qed
    qed
  qed
qed

lemma extract_links_stopped: "snd (extract_links L url resp (Some 0)) = Some 0"
  by (simp add: extract_links_def Let_def split: sum.splits)

lemma on_success_children:
  assumes "shutdown_flag s = shutdown_flag t"
  shows "fst (on_success L A E url b d resp rt s) = fst (on_success L A E url b d resp rt t)"
proof -
  let ?sig = "if shutdown_flag t then Some 0 else env_sigint E"
  obtain ex sig' where x: "extract_links L url resp ?sig = (ex, sig')"
    by (cases "extract_links L url resp ?sig")
  show ?thesis
  proof (cases ex)
    case (Inl e)
    with assms x show ?thesis by (simp add: on_success_def Let_def)
  next
    case (Inr potential_urls)
    with assms x
      process_potential_urls_children [of L A b d "until_sigint sig' potential_urls"]
    show ?thesis by (simp add: on_success_def Let_def split_beta)
  qed
qed

lemma on_success_stopped:
  assumes "shutdown_flag s"
  shows "fst (on_success L A E url b d resp rt s) = []"
proof -
  obtain ex sig' where x: "extract_links L url resp (Some 0) = (ex, sig')"
    by (cases "extract_links L url resp (Some 0)")
  with extract_links_stopped [of L url resp] have s: "sig' = Some 0" by simp
  show ?thesis
  proof (cases ex)
    case (Inl e)
    with assms x show ?thesis by (simp add: on_success_def Let_def)
  next
    case (Inr potential_urls)
    with assms x s show ?thesis by (simp add: on_success_def Let_def)
  qed
qed

lemma crawl_finish_children:
  assumes "shutdown_flag s = shutdown_flag t"
  shows "fst (crawl_finish L A E url b d s) = fst (crawl_finish L A E url b d t)"
proof (cases "env_fetch E")
  case (FetchRaises e)
  then show ?thesis by (simp add: crawl_finish_def)
next
  case (Responded resp rt)
  show ?thesis
  proof (cases "resp_status resp = 200")
    case False
    with Responded show ?thesis by (simp add: crawl_finish_def)
  next
    case True
    with Responded on_success_children [OF assms, of L A E url b d resp rt]
    show ?thesis by (simp add: crawl_finish_def split_beta)
  qed
qed

lemma crawl_finish_stopped:
  assumes "shutdown_flag s"
  shows "fst (crawl_finish L A E url b d s) = []"
proof (cases "env_fetch E")
  case (FetchRaises e)
  then show ?thesis by (simp add: crawl_finish_def)
next
  case (Responded resp rt)
  show ?thesis
  proof (cases "resp_status resp = 200")
    case False
    with Responded show ?thesis by (simp add: crawl_finish_def)
  next
    case True
    with Responded on_success_stopped [OF assms, of L A E url b d resp rt]
    show ?thesis by (simp add: crawl_finish_def split_beta)
  qed
qed

lemma admit_all_flags:
  "admit_all batch st = (flags, st1) \<Longrightarrow> \<not> shutdown_flag st \<Longrightarrow> i < length batch \<Longrightarrow>
     flags ! i = (batch ! i, first_visit batch st i)"
proof (induction batch arbitrary: st flags st1 i)
  case Nil
  then show ?case by simp
next
  case (Cons e batch)
  obtain url depth where e: "e = (url, depth)" by (cases e)
  show ?case
  proof (cases "crawl_enter url st")
    case None
    obtain fl st2 where r: "admit_all batch st = (fl, st2)" by (cases "admit_all batch st")
    from Cons.prems(1) e None r have fl: "flags = ((url, depth), False) # fl" by auto
    from crawl_enter_None [OF None] Cons.prems(2) have v: "url \<in> visited_urls st" by simp
    show ?thesis
    proof (cases i)
      case 0
      with fl e v show ?thesis by (simp add: first_visit_def)
    next
      case (Suc k)
      with Cons.prems(3) have "k < length batch" by simp
      from Cons.IH [OF r Cons.prems(2) this] Suc fl e v show ?thesis
        by (auto simp: first_visit_def)
    qed
  next
    case (Some st2)
    obtain fl st3 where r: "admit_all batch st2 = (fl, st3)" by (cases "admit_all batch st2")
    from Cons.prems(1) e Some r have fl: "flags = ((url, depth), True) # fl" by auto
    from crawl_enter_Some [OF Some]
    have 1: "url \<notin> visited_urls st" "visited_urls st2 = insert url (visited_urls st)"
      "\<not> shutdown_flag st2" by auto
    show ?thesis
    proof (cases i)
      case 0
      with fl e 1 show ?thesis by (simp add: first_visit_def)
    next
      case (Suc k)
      with Cons.prems(3) have "k < length batch" by simp
      from Cons.IH [OF r 1(3) this] Suc fl e 1 show ?thesis
        by (auto simp: first_visit_def)
    qed
  qed
qed

lemma admit_all_pbar:
  "admit_all batch st = (flags, st1) \<Longrightarrow> pbar st1 = pbar st"
proof (induction batch arbitrary: st flags st1)
  case Nil
  then show ?case by simp
next
  case (Cons e batch)
  obtain url depth where e: "e = (url, depth)" by (cases e)
  show ?case
  proof (cases "crawl_enter url st")
    case None
    obtain fl st2 where r: "admit_all batch st = (fl, st2)" by (cases "admit_all batch st")
    from Cons.prems e None r have "st2 = st1" by auto
    with Cons.IH [OF r] show ?thesis by simp
  next
    case (Some st2)
    obtain fl st3 where r: "admit_all batch st2 = (fl, st3)" by (cases "admit_all batch st2")
    from Cons.prems e Some r have "st3 = st1" by auto
    with Cons.IH [OF r] crawl_enter_Some [OF Some] show ?thesis by simp
  qed
qed

lemma finish_all_children:
  "finish_all L A W b flags s = (results, s') \<Longrightarrow> i < length flags \<Longrightarrow>
     results ! i =
       (if snd (flags ! i) \<and> \<not> shutdown_flag s \<and>
           \<not> (\<exists>j<i. snd (flags ! j) \<and> env_sigint (W (fst (fst (flags ! j)))) \<noteq> None)
        then fst (crawl_finish L A (W (fst (fst (flags ! i)))) (fst (fst (flags ! i))) b
                    (snd (fst (flags ! i))) s)
        else [])"
proof (induction flags arbitrary: s results s' i)
  case Nil
  then show ?case by simp
next
  case (Cons f flags)
  obtain url depth a where f: "f = ((url, depth), a)" by (cases f) auto
  show ?case
  proof (cases a)
    case False
    obtain rs s2 where r: "finish_all L A W b flags s = (rs, s2)"
      by (cases "finish_all L A W b flags s")
    from Cons.prems(1) f False r have res: "results = [] # rs" by auto
    show ?thesis
    proof (cases i)
      case 0
      with res f False show ?thesis by simp
    next
      case (Suc k)
      with Cons.prems(2) have "k < length flags" by simp
      from Cons.IH [OF r this] Suc res f False show ?thesis
        by (auto simp: Ex_less_Suc2)
    qed
  next
    case True
    obtain new s1 where c: "crawl_finish L A (W url) url b depth s = (new, s1)"
      by (cases "crawl_finish L A (W url) url b depth s")
    obtain rs s2 where r: "finish_all L A W b flags s1 = (rs, s2)"
      by (cases "finish_all L A W b flags s1")
    from Cons.prems(1) f True c r have res: "results = new # rs" by auto
    from crawl_finish_frame [OF c]
    have fl: "shutdown_flag s1 = (shutdown_flag s \<or> env_sigint (W url) \<noteq> None)" by simp
    show ?thesis
    proof (cases i)
      case 0
      from c crawl_finish_stopped [of s L A "W url" url b depth]
      have "shutdown_flag s \<Longrightarrow> new = []" by simp
      with 0 res f True c show ?thesis by auto
    next
      case (Suc k)
      with Cons.prems(2) have k: "k < length flags" by simp
      have same: "\<not> shutdown_flag s1 \<Longrightarrow>
          fst (crawl_finish L A (W (fst (fst (flags ! k)))) (fst (fst (flags ! k))) b
                 (snd (fst (flags ! k))) s1) =
          fst (crawl_finish L A (W (fst (fst (flags ! k)))) (fst (fst (flags ! k))) b
                 (snd (fst (flags ! k))) s)"
        using fl by (intro crawl_finish_children) simp
      from Cons.IH [OF r k] Suc res f True fl same show ?thesis
        by (auto simp: Ex_less_Suc2)
    qed
  qed
qed

lemma finish_all_progress:
  "finish_all L A W b flags s = (results, s') \<Longrightarrow>
     pbar s' = pbar s + length (filter snd flags) \<and>
     shutdown_flag s' =
       (shutdown_flag s \<or>
        (\<exists>j<length flags. snd (flags ! j) \<and> env_sigint (W (fst (fst (flags ! j)))) \<noteq> None))"
proof (induction flags arbitrary: s results s')
  case Nil
  then show ?case by simp
next
  case (Cons f flags)
  obtain url depth a where f: "f = ((url, depth), a)" by (cases f) auto
  show ?case
  proof (cases a)
    case False
    obtain rs s2 where r: "finish_all L A W b flags s = (rs, s2)"
      by (cases "finish_all L A W b flags s")
    from Cons.prems f False r have "s2 = s'" by auto
    with Cons.IH [OF r] f False show ?thesis by (simp add: Ex_less_Suc2)
  next
    case True
    obtain new s1 where c: "crawl_finish L A (W url) url b depth s = (new, s1)"
      by (cases "crawl_finish L A (W url) url b depth s")
    obtain rs s2 where r: "finish_all L A W b flags s1 = (rs, s2)"
      by (cases "finish_all L A W b flags s1")
    from Cons.prems f True c r have "s2 = s'" by auto
    with Cons.IH [OF r] crawl_finish_frame [OF c] f True show ?thesis
      by (auto simp: Ex_less_Suc2)
  qed
qed

lemma run_batch_children:
  assumes a: "admit_all batch st = (flags, st1)"
    and f: "finish_all L A W b flags st1 = (results, st')"
    and c: "\<not> shutdown_flag st"
  shows "results = map (worker_children L A W b batch st) [0..<length batch]"
    and "visited_urls st' = visited_urls st \<union> fst ` set batch"
    and "pbar st' = pbar st + length (filter (first_visit batch st) [0..<length batch])"
    and "shutdown_flag st' = signal_before W batch st (length batch)"
proof -
  from admit_all_props [OF a] c
  have m: "map fst flags = batch" and c1: "\<not> shutdown_flag st1"
    and v: "visited_urls st1 = visited_urls st \<union> set (admitted flags)"
    and v2: "fst ` set batch \<subseteq> visited_urls st1" by auto
  from m have lf: "length flags = length batch" by (metis length_map)
  from finish_all_frame [OF f]
  have lr: "length results = length flags" and v': "visited_urls st' = visited_urls st1"
    by auto
  have fl: "\<And>i. i < length batch \<Longrightarrow> flags ! i = (batch ! i, first_visit batch st i)"
    using admit_all_flags [OF a c] .
  have sb: "\<And>i. i \<le> length batch \<Longrightarrow>
      (\<exists>j<i. snd (flags ! j) \<and> env_sigint (W (fst (fst (flags ! j)))) \<noteq> None)
        = signal_before W batch st i"
    using fl by (auto simp: signal_before_def)
  show "results = map (worker_children L A W b batch st) [0..<length batch]"
  proof (rule nth_equalityI)
    show "length results = length (map (worker_children L A W b batch st) [0..<length batch])"
      using lr lf by simp
  next
    fix i assume "i < length results"
    with lr lf have i: "i < length batch" by simp
    with lf have i': "i < length flags" by simp
    obtain url depth where e: "batch ! i = (url, depth)" by (cases "batch ! i")
    have w: "first_visit batch st i \<Longrightarrow>
               fst (crawl_finish L A (W url) url b depth st1) =
               fst (crawl_url L A (W url) url b depth st)"
    proof -
      assume "first_visit batch st i"
      with e have "url \<notin> visited_urls st" by (simp add: first_visit_def)
      with c have "crawl_url L A (W url) url b depth st =
          crawl_finish L A (W url) url b depth
            (st\<lparr>visited_urls := insert url (visited_urls st)\<rparr>)"
        by (simp add: crawl_url_def crawl_enter_def)
      moreover from c c1 have "shutdown_flag st1 =
          shutdown_flag (st\<lparr>visited_urls := insert url (visited_urls st)\<rparr>)" by simp
      from crawl_finish_children [OF this]
      have "fst (crawl_finish L A (W url) url b depth st1) =
            fst (crawl_finish L A (W url) url b depth
                   (st\<lparr>visited_urls := insert url (visited_urls st)\<rparr>))" .
      ultimately show ?thesis by simp
    qed
    from i have "i \<le> length batch" by simp
    from finish_all_children [OF f i'] fl [OF i] sb [OF this] c1 e w i
    show "results ! i = map (worker_children L A W b batch st) [0..<length batch] ! i"
      by (auto simp: worker_children_def)
  qed
  have "set (admitted flags) \<subseteq> fst ` set (map fst flags)" by (auto simp: admitted_def)
  with m v v2 v' show "visited_urls st' = visited_urls st \<union> fst ` set batch" by auto
  have "flags = map (\<lambda>i. (batch ! i, first_visit batch st i)) [0..<length batch]"
    using lf fl by (intro nth_equalityI) simp_all
  then have "filter snd flags =
      map (\<lambda>i. (batch ! i, first_visit batch st i))
        (filter (first_visit batch st) [0..<length batch])"
    by (simp add: filter_map o_def)
  then have "length (filter snd flags) = length (filter (first_visit batch st) [0..<length batch])"
    by simp
  with finish_all_progress [OF f] admit_all_pbar [OF a]
  show "pbar st' = pbar st + length (filter (first_visit batch st) [0..<length batch])"
    by simp
  from finish_all_progress [OF f] c1 lf sb [of "length batch"]
  show "shutdown_flag st' = signal_before W batch st (length batch)" by simp
qed

section \<open>Claims about the frontier\<close>

lemmas url_defs = normalize_url_def urlparse_def urlsplit_def split_scheme_def splitnetloc_def
  split_first_def splitparams_def urlunparse_def urlunsplit_def scheme_chars_def ascii_alpha_def
  ascii_lower_def uses_params_def uses_netloc_def netloc_delim_def unsafe_url_byte_def
  c0_control_or_space_def

lemmas crawl_defs = scheduler_step_def run_batch_def crawl_finish_def crawl_enter_def
  on_success_def extract_links_def log_url_def join_and_normalize_def should_exclude_def
  is_same_domain_def get_subdomain_def initial_state_def add_url_record_def add_record_def
  write_buffer_to_json_def init_handler_def

lemmas fixture_defs = fixture_lib_def fixture_args_def fixture_world_def

lemma crawl_url_children:
  assumes "crawl_url L A E url b d st = (new, st')" and "e \<in> set new"
  shows "snd e = d + 1 \<and> d < max_depth A"
proof (cases "crawl_enter url st")
  case None
  with assms show ?thesis by (simp add: crawl_url_def)
next
  case (Some st1)
  with assms have "crawl_finish L A E url b d st1 = (new, st')" by (simp add: crawl_url_def)
  from crawl_finish_frame [OF this] assms(2) show ?thesis by blast
qed

lemma scheduler_step_depth:
  assumes "scheduler_step L A W b (pending, st) = Some (pending', st')"
    and "\<forall>e\<in>set pending. snd e \<le> max_depth A"
  shows "\<forall>e\<in>set pending'. snd e \<le> max_depth A"
proof
  fix e assume e: "e \<in> set pending'"
  from scheduler_step_Some [OF assms(1)] obtain flags st1 results where
    f: "finish_all L A W b flags st1 = (results, st')" and
    p: "pending' = drop (nat (min (workers A * 2) (int (length pending)))) pending @
               concat (map (filter (\<lambda>u. fst u \<notin> visited_urls st')) results)" by blast
  from e p consider "e \<in> set (drop (nat (min (workers A * 2) (int (length pending)))) pending)"
    | new where "new \<in> set results" "e \<in> set new" by auto
  then show "snd e \<le> max_depth A"
  proof cases
    case 1
    then have "e \<in> set pending" by (rule in_set_dropD)
    with assms(2) show ?thesis by blast
  next
    case 2
    from finish_all_results [OF f 2] show ?thesis by simp
  qed
qed

lemma crawl_loop_depth:
  "\<forall>e\<in>set (fst s). snd e \<le> max_depth A \<Longrightarrow>
     \<forall>e\<in>set (fst (crawl_loop n L A W b s)). snd e \<le> max_depth A"
proof (induction n arbitrary: s)
  case 0
  then show ?case by simp
next
  case (Suc n)
  obtain pending st where s: "s = (pending, st)" by (cases s)
  show ?case
  proof (cases "scheduler_step L A W b s")
    case None
    with Suc.prems show ?thesis by simp
  next
    case (Some s')
    obtain pending' st' where s': "s' = (pending', st')" by (cases s')
    from scheduler_step_depth [of L A W b pending st pending' st'] Some s s' Suc.prems
    have "\<forall>e\<in>set (fst s'). snd e \<le> max_depth A" by simp
    from Suc.IH [OF this] Some show ?thesis by simp
  qed
qed

text \<open>
  C4. Every entry \<^verbatim>\<open>crawl_url\<close> returns has the depth of its parent plus one and is
  returned only when the parent's depth is below \<^verbatim>\<open>max_depth\<close>; with a maximum depth
  that is not negative, no entry of the frontier ever has a depth above it, after any number
  of iterations of the scheduler.
\<close>

theorem frontier_depth_bounded:
  "(\<forall>e\<in>set (fst (crawl_url L A E url base_url depth st)).
       snd e = depth + 1 \<and> depth < max_depth A) \<and>
   (0 \<le> max_depth A \<longrightarrow>
      (\<forall>e\<in>set (fst (crawl_loop n L A W base_url (initial_state base_url hopt))).
          snd e \<le> max_depth A))"
proof
  show "\<forall>e\<in>set (fst (crawl_url L A E url base_url depth st)).
          snd e = depth + 1 \<and> depth < max_depth A"
    using crawl_url_children [of L A E url base_url depth st]
    by (cases "crawl_url L A E url base_url depth st") auto
  show "0 \<le> max_depth A \<longrightarrow>
      (\<forall>e\<in>set (fst (crawl_loop n L A W base_url (initial_state base_url hopt))).
          snd e \<le> max_depth A)"
  proof
    assume "0 \<le> max_depth A"
    then have "\<forall>e\<in>set (fst (initial_state base_url hopt)). snd e \<le> max_depth A"
      by (simp add: initial_state_def)
    then show "\<forall>e\<in>set (fst (crawl_loop n L A W base_url (initial_state base_url hopt))).
          snd e \<le> max_depth A" by (rule crawl_loop_depth)
  qed
qed

theorem frontier_depth_bounded_witness:
  "fst (crawl_loop (Suc 0) fixture_lib fixture_args fixture_world ''http://a.test/''
          (initial_state ''http://a.test/'' None)) = [(''http://a.test/x'', 1)] \<and>
   (1::int) \<le> max_depth fixture_args \<and>
   fst (crawl_loop (Suc (Suc 0)) fixture_lib fixture_args fixture_world ''http://a.test/''
          (initial_state ''http://a.test/'' None)) = []"
  using frontier_depth_bounded [of fixture_lib fixture_args "fixture_world ''http://a.test/''"
      "''http://a.test/''" "''http://a.test/''" 0
      "snd (initial_state ''http://a.test/'' None)" "Suc 0" fixture_world None]
  by (simp add: crawl_defs fixture_defs url_defs Let_def)

lemma batch_size_nat:
  "0 \<le> w \<Longrightarrow> nat (min (w * 2) (int n)) = min (2 * nat w) n"
  by (simp add: min_def nat_mult_distrib) linarith

text \<open>
  C7. With a non-empty pending list, the flag clear and at least one worker, an iteration of
  the scheduler takes the first \<open>n = min (2 * workers) (length pending)\<close> entries as its
  batch and runs all of it: afterwards \<^verbatim>\<open>visited_urls\<close> holds the URLs it held before and
  the URLs of the batch, the progress counter has advanced by one for every entry that
  started a fetch, and the flag is set exactly when a signal arrived during one of these
  fetches. The new pending list is the rest of the old one followed, in the order of the
  batch, by the child entries of each worker, that is what \<^verbatim>\<open>crawl_url\<close> returns for
  the entry, without those whose URL is in \<^verbatim>\<open>visited_urls\<close> as it is after the batch.
\<close>

theorem scheduler_iteration_batch_and_merge:
  assumes "urls_to_visit \<noteq> []" and "\<not> shutdown_flag st" and "1 \<le> workers A"
    and "n = min (2 * nat (workers A)) (length urls_to_visit)"
    and "batch = take n urls_to_visit"
  shows "\<exists>st'.
           scheduler_step L A W base_url (urls_to_visit, st) =
             Some (drop n urls_to_visit @
                   concat (map (\<lambda>i. filter (\<lambda>u. fst u \<notin> visited_urls st')
                                       (worker_children L A W base_url batch st i))
                             [0..<n]),
                   st') \<and>
           visited_urls st' = visited_urls st \<union> fst ` set batch \<and>
           pbar st' = pbar st + length (filter (first_visit batch st) [0..<n]) \<and>
           shutdown_flag st' = signal_before W batch st n"
proof -
  from assms(3,4) have n: "nat (min (workers A * 2) (int (length urls_to_visit))) = n"
    using batch_size_nat [of "workers A" "length urls_to_visit"] by simp
  from assms(4,5) have lb: "length batch = n" by simp
  obtain flags st1 where a: "admit_all batch st = (flags, st1)"
    by (cases "admit_all batch st")
  obtain results st' where f: "finish_all L A W base_url flags st1 = (results, st')"
    by (cases "finish_all L A W base_url flags st1")
  note B = run_batch_children [OF a f assms(2), unfolded lb]
  from a f have "run_batch L A W base_url batch st = (results, st')"
    by (simp add: run_batch_def)
  with assms(1,2,5) n
  have "scheduler_step L A W base_url (urls_to_visit, st) =
          Some (drop n urls_to_visit @
                concat (map (filter (\<lambda>u. fst u \<notin> visited_urls st')) results), st')"
    by (simp add: scheduler_step_def Let_def)
  then have "scheduler_step L A W base_url (urls_to_visit, st) =
          Some (drop n urls_to_visit @
                concat (map (\<lambda>i. filter (\<lambda>u. fst u \<notin> visited_urls st')
                                    (worker_children L A W base_url batch st i))
                          [0..<n]),
                st')"
    unfolding B(1) by (simp add: o_def)
  with B(2,3,4) show ?thesis by blast
qed

theorem scheduler_iteration_batch_and_merge_witness:
  "map_option (\<lambda>s. (fst s, visited_urls (snd s), pbar (snd s), shutdown_flag (snd s)))
     (scheduler_step fixture_lib (fixture_args\<lparr>workers := 1\<rparr>) fixture_world_xy
        ''http://a.test/''
        ([(''http://a.test/'', 0), (''http://a.test/x'', 0), (''http://a.test/z'', 0)],
         snd (initial_state ''http://a.test/'' None)))
   = Some ([(''http://a.test/z'', 0), (''http://a.test/y'', 1), (''http://a.test/y'', 1)],
           {''http://a.test/'', ''http://a.test/x''}, 2, False)"
proof -
  let ?A = "fixture_args\<lparr>workers := 1\<rparr>"
  let ?st = "snd (initial_state ''http://a.test/'' None)"
  let ?pending = "[(''http://a.test/'', 0::int), (''http://a.test/x'', 0), (''http://a.test/z'', 0)]"
  let ?batch = "[(''http://a.test/'', 0::int), (''http://a.test/x'', 0)]"
  have h: "?pending \<noteq> []" "\<not> shutdown_flag ?st" "1 \<le> workers ?A"
    "2 = min (2 * nat (workers ?A)) (length ?pending)" "?batch = take 2 ?pending"
    by (simp_all add: initial_state_def fixture_args_def)
  from scheduler_iteration_batch_and_merge
         [of ?pending ?st ?A 2 ?batch fixture_lib fixture_world_xy "''http://a.test/''",
          OF h]
  obtain st' where
    1: "scheduler_step fixture_lib ?A fixture_world_xy ''http://a.test/'' (?pending, ?st) =
          Some (drop 2 ?pending @
                concat (map (\<lambda>i. filter (\<lambda>u. fst u \<notin> visited_urls st')
                          (worker_children fixture_lib ?A fixture_world_xy ''http://a.test/''
                             ?batch ?st i)) [0..<2]), st')" and
    2: "visited_urls st' = visited_urls ?st \<union> fst ` set ?batch" and
    3: "pbar st' = pbar ?st + length (filter (first_visit ?batch ?st) [0..<2])" and
    4: "shutdown_flag st' = signal_before fixture_world_xy ?batch ?st 2" by blast
  have u: "[0..<2] = [0, Suc 0]" by (simp add: upt_rec)
  have fv: "first_visit ?batch ?st 0" "first_visit ?batch ?st (Suc 0)"
    by (simp_all add: first_visit_def initial_state_def)
  have sg: "\<not> signal_before fixture_world_xy ?batch ?st i" for i
    by (simp add: signal_before_def fixture_world_xy_def)
  have c0: "worker_children fixture_lib ?A fixture_world_xy ''http://a.test/'' ?batch ?st 0
              = [(''http://a.test/x'', 1), (''http://a.test/y'', 1)]"
    unfolding worker_children_def using fv sg
    by (simp add: crawl_url_def crawl_defs fixture_lib_def fixture_args_def
          fixture_world_xy_def url_defs Let_def)
  have c1: "worker_children fixture_lib ?A fixture_world_xy ''http://a.test/'' ?batch ?st (Suc 0)
              = [(''http://a.test/x'', 1), (''http://a.test/y'', 1)]"
    unfolding worker_children_def using fv sg
    by (simp add: crawl_url_def crawl_defs fixture_lib_def fixture_args_def
          fixture_world_xy_def url_defs Let_def)
  have v: "visited_urls st' = {''http://a.test/'', ''http://a.test/x''}"
    unfolding 2 by (auto simp: initial_state_def)
  have p: "pbar st' = 2" unfolding 3 u using fv by (simp add: initial_state_def)
  from 4 sg have s: "\<not> shutdown_flag st'" by simp
  show ?thesis unfolding 1 u using v p s c0 c1 by simp
qed

section \<open>Claims about cancellation and about the records of an attempt\<close>

lemma crawl_loop_stopped:
  "shutdown_flag st \<Longrightarrow> crawl_loop n L A W b (pending, st) = (pending, st)"
  by (cases n) (simp_all add: scheduler_step_def)

lemma crawl_url_stopped:
  "shutdown_flag st \<Longrightarrow> crawl_url L A E url b d st = ([], st)"
  by (simp add: crawl_url_def crawl_enter_def)

lemma finish_all_sigint:
  "finish_all L A W b flags st = (results, st') \<Longrightarrow> u \<in> set (admitted flags) \<Longrightarrow>
     env_sigint (W u) \<noteq> None \<Longrightarrow> shutdown_flag st'"
proof (induction flags arbitrary: st results st')
  case Nil
  then show ?case by (simp add: admitted_simps)
next
  case (Cons f flags)
  obtain url depth a where f: "f = ((url, depth), a)" by (cases f) auto
  show ?case
  proof (cases a)
    case False
    obtain rs st2 where r: "finish_all L A W b flags st = (rs, st2)"
      by (cases "finish_all L A W b flags st")
    from Cons.prems f False r have "st2 = st'" "u \<in> set (admitted flags)"
      by (auto simp: admitted_simps)
    with Cons.IH [OF r _ Cons.prems(3)] show ?thesis by simp
  next
    case True
    obtain new st1 where c: "crawl_finish L A (W url) url b depth st = (new, st1)"
      by (cases "crawl_finish L A (W url) url b depth st")
    obtain rs st2 where r: "finish_all L A W b flags st1 = (rs, st2)"
      by (cases "finish_all L A W b flags st1")
    from Cons.prems f True c r have st2: "st2 = st'" by auto
    from Cons.prems(2) f True consider "u = url" | "u \<in> set (admitted flags)"
      by (auto simp: admitted_simps)
    then show ?thesis
    proof cases
      case 1
      with crawl_finish_frame [OF c] Cons.prems(3) have "shutdown_flag st1" by simp
      with finish_all_frame [OF r] st2 show ?thesis by simp
    next
      case 2
      from Cons.IH [OF r 2 Cons.prems(3)] st2 show ?thesis by simp
    qed
  qed
qed

lemma scheduler_step_sigint:
  assumes "scheduler_step L A W b (pending, st) = Some (pending', st')"
    and "(u, d) \<in> set (take (nat (min (workers A * 2) (int (length pending)))) pending)"
    and "u \<notin> visited_urls st" and "env_sigint (W u) \<noteq> None"
  shows "shutdown_flag st'"
proof -
  from scheduler_step_Some [OF assms(1)] obtain flags st1 results where
    ns: "\<not> shutdown_flag st" and
    a: "admit_all (take (nat (min (workers A * 2) (int (length pending)))) pending) st
          = (flags, st1)" and
    f: "finish_all L A W b flags st1 = (results, st')" by blast
  from admit_all_props [OF a] ns assms(2)
  have "u \<in> visited_urls st \<union> set (admitted flags)" by force
  with assms(3) have "u \<in> set (admitted flags)" by simp
  from finish_all_sigint [OF f this assms(4)] show ?thesis .
qed

text \<open>
  C5, as amended. Once the flag is set the scheduler dispatches nothing more: the loop ends
  with the state it has, a call of \<^verbatim>\<open>crawl_url\<close> returns at once, and the status is
  \<^verbatim>\<open>interrupted\<close>. A signal that arrives while a batch is under way ends the loop at
  the next iteration. A fetch that was already issued runs to its end whatever the flag is,
  and, when a buffer handler is configured, appends its record; the flag is set after it.
\<close>

theorem cancellation_stops_dispatch_keeps_records:
  "(shutdown_flag st \<longrightarrow>
      scheduler_step L A W base_url (pending, st) = None \<and>
      crawl_loop n L A W base_url (pending, st) = (pending, st) \<and>
      crawl_url L A E url base_url depth st = ([], st) \<and>
      final_status st = ''interrupted'') \<and>
   (\<forall>pending' st' u d.
      scheduler_step L A W base_url (pending, st) = Some (pending', st') \<and>
      (u, d) \<in> set (take (nat (min (workers A * 2) (int (length pending)))) pending) \<and>
      u \<notin> visited_urls st \<and> env_sigint (W u) \<noteq> None \<longrightarrow>
      shutdown_flag st' \<and> scheduler_step L A W base_url (pending', st') = None) \<and>
   (\<forall>h. handler st = Some h \<and> parses L url \<longrightarrow>
      (\<exists>h' r rs. handler (snd (crawl_finish L A E url base_url depth st)) = Some h' \<and>
         buffer h' = buffer h @ r # rs \<and> is_url_record r \<and> rec_url r = url)) \<and>
   (shutdown_flag st \<or> env_sigint E \<noteq> None \<longrightarrow>
      shutdown_flag (snd (crawl_finish L A E url base_url depth st)))"
proof (intro conjI allI impI)
  assume "shutdown_flag st"
  then show "scheduler_step L A W base_url (pending, st) = None"
    by (simp add: scheduler_step_None)
  from \<open>shutdown_flag st\<close> show "crawl_loop n L A W base_url (pending, st) = (pending, st)"
    by (rule crawl_loop_stopped)
  from \<open>shutdown_flag st\<close> show "crawl_url L A E url base_url depth st = ([], st)"
    by (rule crawl_url_stopped)
  from \<open>shutdown_flag st\<close> show "final_status st = ''interrupted''"
    by (simp add: final_status_def)
next
  fix pending' st' u d
  assume a: "scheduler_step L A W base_url (pending, st) = Some (pending', st') \<and>
      (u, d) \<in> set (take (nat (min (workers A * 2) (int (length pending)))) pending) \<and>
      u \<notin> visited_urls st \<and> env_sigint (W u) \<noteq> None"
  then show "shutdown_flag st'" using scheduler_step_sigint by blast
  then show "scheduler_step L A W base_url (pending', st') = None"
    by (simp add: scheduler_step_None)
next
  fix h
  assume a: "handler st = Some h \<and> parses L url"
  obtain new st' where c: "crawl_finish L A E url base_url depth st = (new, st')"
    by (cases "crawl_finish L A E url base_url depth st")
  from crawl_finish_records [OF c] a
  obtain h' r rs where "handler st' = Some h'" "buffer h' = buffer h @ r # rs"
    "\<forall>x\<in>set (r # rs). is_url_record x \<and> rec_url x = url" by blast
  with c show "\<exists>h' r rs. handler (snd (crawl_finish L A E url base_url depth st)) = Some h' \<and>
         buffer h' = buffer h @ r # rs \<and> is_url_record r \<and> rec_url r = url" by auto
next
  assume a: "shutdown_flag st \<or> env_sigint E \<noteq> None"
  obtain new st' where c: "crawl_finish L A E url base_url depth st = (new, st')"
    by (cases "crawl_finish L A E url base_url depth st")
  from crawl_finish_frame [OF c] a c
  show "shutdown_flag (snd (crawl_finish L A E url base_url depth st))" by auto
qed

theorem cancellation_stops_dispatch_keeps_records_witness:
  "scheduler_step fixture_lib fixture_args fixture_world ''http://a.test/''
     ([(''http://a.test/x'', 1)],
      (snd (initial_state ''http://a.test/'' (Some (init_handler 1 100 None))))
        \<lparr>shutdown_flag := True\<rparr>) = None \<and>
   (\<exists>h' r rs.
       handler (snd (crawl_finish fixture_lib fixture_args
                        ((fixture_world ''http://a.test/'')\<lparr>env_sigint := Some 0\<rparr>)
                        ''http://a.test/'' ''http://a.test/'' 0
                        ((snd (initial_state ''http://a.test/'' (Some (init_handler 1 100 None))))
                           \<lparr>visited_urls := {''http://a.test/''}\<rparr>))) = Some h' \<and>
       buffer h' = buffer (init_handler 1 100 None) @ r # rs \<and> is_url_record r \<and>
       rec_url r = ''http://a.test/'') \<and>
   shutdown_flag (snd (crawl_finish fixture_lib fixture_args
                        ((fixture_world ''http://a.test/'')\<lparr>env_sigint := Some 0\<rparr>)
                        ''http://a.test/'' ''http://a.test/'' 0
                        ((snd (initial_state ''http://a.test/'' (Some (init_handler 1 100 None))))
                           \<lparr>visited_urls := {''http://a.test/''}\<rparr>)))"
proof -
  let ?s0 = "snd (initial_state ''http://a.test/'' (Some (init_handler 1 100 None)))"
  let ?E = "(fixture_world ''http://a.test/'')\<lparr>env_sigint := Some 0\<rparr>"
  have f: "shutdown_flag (?s0\<lparr>shutdown_flag := True\<rparr>)" by simp
  have h: "handler (?s0\<lparr>visited_urls := {''http://a.test/''}\<rparr>)
             = Some (init_handler 1 100 None)"
    by (simp add: initial_state_def)
  have p: "parses fixture_lib ''http://a.test/''"
    by (simp add: parses_def fixture_lib_def url_defs)
  have s: "env_sigint ?E \<noteq> None" by simp
  from cancellation_stops_dispatch_keeps_records
    [of "?s0\<lparr>shutdown_flag := True\<rparr>" fixture_lib fixture_args fixture_world
        "''http://a.test/''" "[(''http://a.test/x'', 1)]" 0 ?E "''http://a.test/''" 0] f
  have 1: "scheduler_step fixture_lib fixture_args fixture_world ''http://a.test/''
     ([(''http://a.test/x'', 1)], ?s0\<lparr>shutdown_flag := True\<rparr>) = None" by blast
  from cancellation_stops_dispatch_keeps_records
    [of "?s0\<lparr>visited_urls := {''http://a.test/''}\<rparr>" fixture_lib fixture_args fixture_world
        "''http://a.test/''" "[(''http://a.test/x'', 1)]" 0 ?E "''http://a.test/''" 0] h p s
  have 2: "(\<exists>h' r rs.
       handler (snd (crawl_finish fixture_lib fixture_args ?E
                        ''http://a.test/'' ''http://a.test/'' 0
                        (?s0\<lparr>visited_urls := {''http://a.test/''}\<rparr>))) = Some h' \<and>
       buffer h' = buffer (init_handler 1 100 None) @ r # rs \<and> is_url_record r \<and>
       rec_url r = ''http://a.test/'') \<and>
     shutdown_flag (snd (crawl_finish fixture_lib fixture_args ?E
                        ''http://a.test/'' ''http://a.test/'' 0
                        (?s0\<lparr>visited_urls := {''http://a.test/''}\<rparr>)))" by blast
  from 1 2 show ?thesis by blast
qed

text \<open>
  C5, the counterexample to the claim as stated: a run without a database has no buffer
  handler. A fetch that was issued before the signal arrived runs to its end (the progress
  counter is advanced) and produces no record.
\<close>

theorem issued_fetch_without_handler_leaves_no_record:
  "fst (crawl_finish fixture_lib fixture_args
          ((fixture_world ''http://a.test/'')\<lparr>env_sigint := Some 0\<rparr>)
          ''http://a.test/'' ''http://a.test/'' 0
          ((snd (initial_state ''http://a.test/'' None))
             \<lparr>visited_urls := {''http://a.test/''}\<rparr>)) = [] \<and>
   handler (snd (crawl_finish fixture_lib fixture_args
                   ((fixture_world ''http://a.test/'')\<lparr>env_sigint := Some 0\<rparr>)
                   ''http://a.test/'' ''http://a.test/'' 0
                   ((snd (initial_state ''http://a.test/'' None))
                      \<lparr>visited_urls := {''http://a.test/''}\<rparr>))) = None \<and>
   pbar (snd (crawl_finish fixture_lib fixture_args
                   ((fixture_world ''http://a.test/'')\<lparr>env_sigint := Some 0\<rparr>)
                   ''http://a.test/'' ''http://a.test/'' 0
                   ((snd (initial_state ''http://a.test/'' None))
                      \<lparr>visited_urls := {''http://a.test/''}\<rparr>))) = 1"
  by (simp add: crawl_defs fixture_defs url_defs Let_def)

lemma on_success_raised_visited:
  "snd (snd (on_success L A E url b d resp rt (st\<lparr>visited_urls := V\<rparr>)))
     = snd (snd (on_success L A E url b d resp rt st))"
proof -
  obtain ex sig' where x: "extract_links L url resp
        (if shutdown_flag st then Some 0 else env_sigint E) = (ex, sig')"
    by (cases "extract_links L url resp (if shutdown_flag st then Some 0 else env_sigint E)")
  show ?thesis
  proof (cases ex)
    case (Inl e)
    with x show ?thesis by (simp add: on_success_def Let_def)
  next
    case (Inr potential_urls)
    with x show ?thesis by (simp add: on_success_def Let_def split_beta cong: option.case_cong)
  qed
qed

lemma quiet_attempt_visited:
  "quiet_attempt L A E url b d (st\<lparr>visited_urls := V\<rparr>) = quiet_attempt L A E url b d st"
  by (simp add: quiet_attempt_def on_success_raised_visited split: fetch_outcome.splits)

lemma crawl_url_one_record:
  assumes "handler st = Some h" and "parses L url" and "quiet_attempt L A E url b d st"
    and "\<not> shutdown_flag st" and "url \<notin> visited_urls st"
  shows "(\<exists>h' r. handler (snd (crawl_url L A E url b d st)) = Some h' \<and>
            buffer h' = buffer h @ [r] \<and> is_url_record r \<and> rec_url r = url) \<and>
         visited_urls (snd (crawl_url L A E url b d st)) = insert url (visited_urls st)"
proof -
  let ?st1 = "st\<lparr>visited_urls := insert url (visited_urls st)\<rparr>"
  from assms(4,5) have e: "crawl_enter url st = Some ?st1" by (simp add: crawl_enter_def)
  obtain new st' where c: "crawl_finish L A E url b d ?st1 = (new, st')"
    by (cases "crawl_finish L A E url b d ?st1")
  from assms(1) have h: "handler ?st1 = Some h" by simp
  from assms(3) have q: "quiet_attempt L A E url b d ?st1" by (simp add: quiet_attempt_visited)
  from crawl_finish_records [OF c h assms(2)] q
  obtain h' r where "handler st' = Some h'" "buffer h' = buffer h @ [r]"
    "is_url_record r" "rec_url r = url" by auto
  moreover from crawl_finish_frame [OF c]
  have "visited_urls st' = insert url (visited_urls st)" by simp
  moreover from e c have "crawl_url L A E url b d st = (new, st')" by (simp add: crawl_url_def)
  ultimately show ?thesis by auto
qed

lemma admitted_subset: "set (admitted flags) \<subseteq> fst ` set (map fst flags)"
  by (auto simp: admitted_def)

lemma scheduler_step_lockstep:
  assumes Q: "\<forall>url d st. quiet_attempt L A (W url) url b d st"
    and s: "scheduler_step L A W b (pending, st) = Some (pending', st')"
    and h: "handler st = Some h" "distinct (recorded_urls h)"
      "set (recorded_urls h) = visited_urls st"
    and p: "\<forall>e\<in>set pending. parses L (fst e)"
  shows "(\<exists>h'. handler st' = Some h' \<and> distinct (recorded_urls h') \<and>
            set (recorded_urls h') = visited_urls st') \<and>
         (\<forall>e\<in>set pending'. parses L (fst e))"
proof -
  let ?k = "nat (min (workers A * 2) (int (length pending)))"
  from scheduler_step_Some [OF s] obtain flags st1 results where
    a: "admit_all (take ?k pending) st = (flags, st1)" and
    f: "finish_all L A W b flags st1 = (results, st')" and
    p': "pending' = drop ?k pending @
               concat (map (filter (\<lambda>u. fst u \<notin> visited_urls st')) results)" by blast
  from admit_all_props [OF a]
  have m: "map fst flags = take ?k pending" and h1: "handler st1 = handler st"
    and v1: "visited_urls st1 = visited_urls st \<union> set (admitted flags)"
    and d: "distinct (admitted flags)"
    and dj: "set (admitted flags) \<inter> visited_urls st = {}" by auto
  from admitted_subset [of flags] m
  have "set (admitted flags) \<subseteq> fst ` set pending"
    by (metis (no_types, lifting) image_mono set_take_subset subset_trans)
  with p have pa: "\<forall>u\<in>set (admitted flags). parses L u" by auto
  from h1 h(1) have "handler st1 = Some h" by simp
  from finish_all_records [OF Q f this pa]
  obtain h' where h': "handler st' = Some h'"
    "recorded_urls h' = recorded_urls h @ admitted flags" by blast
  from finish_all_frame [OF f] have v': "visited_urls st' = visited_urls st1" by simp
  from h' h(2,3) d dj v1 v'
  have "distinct (recorded_urls h') \<and> set (recorded_urls h') = visited_urls st'"
    by auto
  moreover have "\<forall>e\<in>set pending'. parses L (fst e)"
  proof
    fix e assume "e \<in> set pending'"
    with p' consider "e \<in> set (drop ?k pending)"
      | new where "new \<in> set results" "e \<in> set new" by auto
    then show "parses L (fst e)"
    proof cases
      case 1
      then have "e \<in> set pending" by (rule in_set_dropD)
      with p show ?thesis by blast
    next
      case 2
      from finish_all_results [OF f 2] show ?thesis by simp
    qed
  qed
  ultimately show ?thesis using h'(1) by blast
qed

lemma crawl_loop_lockstep:
  assumes Q: "\<forall>url d st. quiet_attempt L A (W url) url b d st"
  shows "handler (snd s) = Some h \<Longrightarrow> distinct (recorded_urls h) \<Longrightarrow>
     set (recorded_urls h) = visited_urls (snd s) \<Longrightarrow> \<forall>e\<in>set (fst s). parses L (fst e) \<Longrightarrow>
     \<exists>h'. handler (snd (crawl_loop n L A W b s)) = Some h' \<and> distinct (recorded_urls h') \<and>
          set (recorded_urls h') = visited_urls (snd (crawl_loop n L A W b s))"
proof (induction n arbitrary: s h)
  case 0
  then show ?case by simp
next
  case (Suc n)
  obtain pending st where s: "s = (pending, st)" by (cases s)
  show ?case
  proof (cases "scheduler_step L A W b s")
    case None
    with Suc.prems show ?thesis by simp
  next
    case (Some s')
    obtain pending' st' where s': "s' = (pending', st')" by (cases s')
    from scheduler_step_lockstep [OF Q, of pending st pending' st' h] Some s s' Suc.prems
    obtain h' where "handler (snd s') = Some h'" "distinct (recorded_urls h')"
      "set (recorded_urls h') = visited_urls (snd s')" "\<forall>e\<in>set (fst s'). parses L (fst e)"
      by auto
    from Suc.IH [OF this] Some show ?thesis by simp
  qed
qed

lemma fixture_world_quiet:
  "quiet_attempt fixture_lib fixture_args (fixture_world url) url ''http://a.test/'' d st"
  by (simp add: quiet_attempt_def fixture_defs on_success_def extract_links_def
        join_and_normalize_def should_exclude_def is_same_domain_def get_subdomain_def
        url_defs Let_def)

text \<open>
  An attempt whose body cannot be read is recorded twice: the success record is appended
  before \<^verbatim>\<open>response.text()\<close> is awaited, and the exception it raises reaches the
  \<^verbatim>\<open>except\<close> clause that appends an error record for the same URL.
\<close>

lemma body_exception_records_twice:
  "map_option buffer
     (handler (snd (crawl_url fixture_lib fixture_args
        \<lparr>env_fetch =
           Responded
             \<lparr>resp_status = 200, resp_content_type = Some ''text/html'',
              resp_url = ''http://a.test/'', resp_json = JsonDecodeError,
              resp_hrefs = Inl TimeoutError\<rparr> 5,
         env_write = IoOk, env_sigint = None\<rparr>
        ''http://a.test/'' ''http://a.test/'' 0
        (snd (initial_state ''http://a.test/'' (Some (init_handler 1 100 None)))))))
   = Some [UrlRecord 1 ''http://a.test/'' ''http://a.test/'' ''a.test'' ''/'' 0
             (Some 200) (Some ''text/html'') (Some 5) None,
           UrlRecord 1 ''http://a.test/'' ''http://a.test/'' ''a.test'' ''/'' 0
             None None None (Some ''Request timeout'')]"
  by (simp add: crawl_url_def crawl_defs fixture_defs url_defs Let_def)

text \<open>
  C1, as amended. With a buffer handler configured and a URL that \<^verbatim>\<open>urlparse\<close> accepts,
  an attempt that is carried out and that no exception leaves after the response was logged
  adds the URL to \<^verbatim>\<open>visited_urls\<close> and appends exactly one record, for this URL, to
  the buffer; an attempt that is skipped (flag set, or URL visited before) changes nothing.
  In a run started with an empty buffer in which every attempt is of that kind, the URLs
  of the url records are, at every iteration, exactly the visited URLs, each recorded once:
  the two counts are equal.
\<close>

theorem one_record_per_attempt:
  "(\<forall>h. handler st = Some h \<and> parses L url \<and> quiet_attempt L A E url base_url depth st \<and>
       \<not> shutdown_flag st \<and> url \<notin> visited_urls st \<longrightarrow>
       (\<exists>h' r. handler (snd (crawl_url L A E url base_url depth st)) = Some h' \<and>
            buffer h' = buffer h @ [r] \<and> is_url_record r \<and> rec_url r = url) \<and>
       visited_urls (snd (crawl_url L A E url base_url depth st)) = insert url (visited_urls st)) \<and>
   (shutdown_flag st \<or> url \<in> visited_urls st \<longrightarrow>
       snd (crawl_url L A E url base_url depth st) = st) \<and>
   (parses L base_url \<and> (\<forall>url d st. quiet_attempt L A (W url) url base_url d st) \<and>
    buffer h0 = [] \<longrightarrow>
       (\<exists>h. handler (snd (crawl_loop n L A W base_url (initial_state base_url (Some h0))))
               = Some h \<and>
            distinct (recorded_urls h) \<and>
            set (recorded_urls h)
              = visited_urls (snd (crawl_loop n L A W base_url (initial_state base_url (Some h0)))) \<and>
            card (visited_urls (snd (crawl_loop n L A W base_url
                                       (initial_state base_url (Some h0)))))
              = length (recorded_urls h)))"
proof (intro conjI allI impI)
  fix h
  assume a: "handler st = Some h \<and> parses L url \<and> quiet_attempt L A E url base_url depth st \<and>
       \<not> shutdown_flag st \<and> url \<notin> visited_urls st"
  with crawl_url_one_record [of st h L url A E base_url depth]
  show "\<exists>h' r. handler (snd (crawl_url L A E url base_url depth st)) = Some h' \<and>
            buffer h' = buffer h @ [r] \<and> is_url_record r \<and> rec_url r = url"
    and "visited_urls (snd (crawl_url L A E url base_url depth st)) = insert url (visited_urls st)"
    by blast+
next
  assume "shutdown_flag st \<or> url \<in> visited_urls st"
  then show "snd (crawl_url L A E url base_url depth st) = st"
    by (auto simp: crawl_url_def crawl_enter_def)
next
  assume a: "parses L base_url \<and> (\<forall>url d st. quiet_attempt L A (W url) url base_url d st) \<and>
    buffer h0 = []"
  let ?s = "initial_state base_url (Some h0)"
  from a have "handler (snd ?s) = Some h0" "distinct (recorded_urls h0)"
    "set (recorded_urls h0) = visited_urls (snd ?s)" "\<forall>e\<in>set (fst ?s). parses L (fst e)"
    by (simp_all add: initial_state_def recorded_urls_def)
  from crawl_loop_lockstep [OF _ this, of A W base_url n] a
  obtain h where h: "handler (snd (crawl_loop n L A W base_url ?s)) = Some h"
    "distinct (recorded_urls h)"
    "set (recorded_urls h) = visited_urls (snd (crawl_loop n L A W base_url ?s))" by blast
  from h(2) have "card (set (recorded_urls h)) = length (recorded_urls h)"
    by (rule distinct_card)
  with h show "\<exists>h. handler (snd (crawl_loop n L A W base_url ?s)) = Some h \<and>
            distinct (recorded_urls h) \<and>
            set (recorded_urls h) = visited_urls (snd (crawl_loop n L A W base_url ?s)) \<and>
            card (visited_urls (snd (crawl_loop n L A W base_url ?s)))
              = length (recorded_urls h)" by auto
qed

theorem one_record_per_attempt_witness:
  "\<exists>h. handler (snd (crawl_loop (Suc (Suc 0)) fixture_lib fixture_args fixture_world
                         ''http://a.test/''
                         (initial_state ''http://a.test/'' (Some (init_handler 1 100 None)))))
          = Some h \<and>
       recorded_urls h = [''http://a.test/'', ''http://a.test/x''] \<and>
       card (visited_urls (snd (crawl_loop (Suc (Suc 0)) fixture_lib fixture_args fixture_world
                                  ''http://a.test/''
                                  (initial_state ''http://a.test/''
                                     (Some (init_handler 1 100 None))))))
         = length (recorded_urls h)"
proof -
  let ?s = "snd (crawl_loop (Suc (Suc 0)) fixture_lib fixture_args fixture_world
                   ''http://a.test/''
                   (initial_state ''http://a.test/'' (Some (init_handler 1 100 None))))"
  have p: "parses fixture_lib ''http://a.test/''"
    by (simp add: parses_def fixture_lib_def url_defs)
  have q: "\<forall>url d st.
             quiet_attempt fixture_lib fixture_args (fixture_world url) url ''http://a.test/'' d st"
    by (simp add: fixture_world_quiet)
  have b: "buffer (init_handler 1 100 None) = []" by (simp add: init_handler_def)
  from one_record_per_attempt
    [of "snd (initial_state ''http://a.test/'' None)" fixture_lib "''http://a.test/''"
        fixture_args "fixture_world ''http://a.test/''" "''http://a.test/''" 0 fixture_world
        "init_handler 1 100 None" "Suc (Suc 0)"] p q b
  obtain h where h: "handler ?s = Some h" "card (visited_urls ?s) = length (recorded_urls h)"
    by blast
  have "map_option recorded_urls (handler ?s)
          = Some [''http://a.test/'', ''http://a.test/x'']"
    by (simp add: crawl_defs fixture_defs url_defs recorded_urls_def Let_def)
  with h show ?thesis by auto
qed

text \<open>
  C1, the counterexample to the claim as stated: without a database there is no buffer
  handler; the URL is visited and no record is produced.
\<close>

theorem visit_without_handler_leaves_no_record:
  "visited_urls (snd (crawl_url fixture_lib fixture_args (fixture_world ''http://a.test/'')
                        ''http://a.test/'' ''http://a.test/'' 0
                        (snd (initial_state ''http://a.test/'' None))))
     = {''http://a.test/''} \<and>
   handler (snd (crawl_url fixture_lib fixture_args (fixture_world ''http://a.test/'')
                   ''http://a.test/'' ''http://a.test/'' 0
                   (snd (initial_state ''http://a.test/'' None)))) = None"
  by (simp add: crawl_url_def crawl_defs fixture_defs url_defs Let_def)

section \<open>Properties of URL parsing\<close>

lemma scheme_char_lower: "c \<in> set scheme_chars \<Longrightarrow> ascii_lower c \<in> set scheme_chars"
  unfolding scheme_chars_def ascii_lower_def by auto

lemma ascii_lower_idem: "c \<in> set scheme_chars \<Longrightarrow> ascii_lower (ascii_lower c) = ascii_lower c"
  unfolding scheme_chars_def ascii_lower_def by auto

lemma ascii_alpha_lower: "ascii_alpha c \<Longrightarrow> ascii_alpha (ascii_lower c)"
  unfolding ascii_alpha_def ascii_lower_def by auto

lemma scheme_char_not_delim:
  "c \<in> set scheme_chars \<Longrightarrow>
     c \<noteq> CHR '':'' \<and> c \<noteq> CHR ''/'' \<and> c \<noteq> CHR ''?'' \<and> c \<noteq> CHR ''#'' \<and> c \<noteq> CHR '';''
     \<and> \<not> unsafe_url_byte c \<and> \<not> c0_control_or_space c"
  unfolding scheme_chars_def unsafe_url_byte_def c0_control_or_space_def by auto

lemma ascii_alpha_not_c0: "ascii_alpha c \<Longrightarrow> \<not> c0_control_or_space c"
  unfolding ascii_alpha_def c0_control_or_space_def by auto

lemma unsafe_is_c0: "unsafe_url_byte c \<Longrightarrow> c0_control_or_space c"
  unfolding unsafe_url_byte_def c0_control_or_space_def by auto

lemma delims_not_c0:
  "\<not> c0_control_or_space (CHR ''/'')" "\<not> c0_control_or_space (CHR ''?'')"
  "\<not> c0_control_or_space (CHR '';'')" "\<not> unsafe_url_byte (CHR ''/'')"
  "\<not> unsafe_url_byte (CHR ''?'')" "\<not> unsafe_url_byte (CHR '';'')"
  "\<not> unsafe_url_byte (CHR '':'')"
  by (simp_all add: unsafe_url_byte_def c0_control_or_space_def)

lemma takeWhile_neq_append:
  "c \<notin> set xs \<Longrightarrow> takeWhile (\<lambda>x. x \<noteq> c) (xs @ c # ys) = xs"
  by (induction xs) auto

lemma dropWhile_neq_append:
  "c \<notin> set xs \<Longrightarrow> dropWhile (\<lambda>x. x \<noteq> c) (xs @ c # ys) = c # ys"
  by (induction xs) auto

lemma split_first_append:
  "c \<notin> set xs \<Longrightarrow> split_first c (xs @ c # ys) = (xs, ys)"
  by (simp add: split_first_def takeWhile_neq_append dropWhile_neq_append)

lemma split_first_decomp:
  assumes "c \<in> set s"
  shows "s = fst (split_first c s) @ c # snd (split_first c s) \<and> c \<notin> set (fst (split_first c s))"
proof -
  let ?a = "takeWhile (\<lambda>x. x \<noteq> c) s" and ?b = "dropWhile (\<lambda>x. x \<noteq> c) s"
  from assms have "?b \<noteq> []" by (simp add: dropWhile_eq_Nil_conv)
  moreover then have "hd ?b = c" using hd_dropWhile [of "\<lambda>x. x \<noteq> c" s] by simp
  ultimately have "?b = c # tl ?b" by (cases ?b) auto
  moreover have "s = ?a @ ?b" by simp
  moreover have "c \<notin> set ?a" by (auto dest: set_takeWhileD)
  ultimately show ?thesis by (simp add: split_first_def)
qed

lemma has_scheme_iff:
  "has_scheme url \<longleftrightarrow>
     (\<exists>pre r. url = pre @ CHR '':'' # r \<and> pre \<noteq> [] \<and> ascii_alpha (hd pre) \<and>
        list_all (\<lambda>c. c \<in> set scheme_chars) pre)"
proof
  assume h: "has_scheme url"
  then have "CHR '':'' \<in> set url" by (simp add: has_scheme_def)
  from split_first_decomp [OF this]
  have "url = takeWhile (\<lambda>c. c \<noteq> CHR '':'') url @ CHR '':'' #
                tl (dropWhile (\<lambda>c. c \<noteq> CHR '':'') url)"
    by (simp add: split_first_def)
  with h show "\<exists>pre r. url = pre @ CHR '':'' # r \<and> pre \<noteq> [] \<and>
      ascii_alpha (hd pre) \<and> list_all (\<lambda>c. c \<in> set scheme_chars) pre"
    unfolding has_scheme_def by blast
next
  assume "\<exists>pre r. url = pre @ CHR '':'' # r \<and> pre \<noteq> [] \<and> ascii_alpha (hd pre) \<and>
        list_all (\<lambda>c. c \<in> set scheme_chars) pre"
  then obtain pre r where u: "url = pre @ CHR '':'' # r" and p: "pre \<noteq> []"
    "ascii_alpha (hd pre)" "list_all (\<lambda>c. c \<in> set scheme_chars) pre" by blast
  from p(3) have "CHR '':'' \<notin> set pre"
    using scheme_char_not_delim by (auto simp: list_all_iff)
  then have "takeWhile (\<lambda>c. c \<noteq> CHR '':'') url = pre"
    using u by (simp add: takeWhile_neq_append)
  with u p show "has_scheme url" by (simp add: has_scheme_def)
qed

lemma split_scheme_cases:
  "split_scheme url = (sch, r) \<Longrightarrow>
     (sch = [] \<and> r = url \<and> \<not> has_scheme url) \<or>
     (\<exists>pre. url = pre @ CHR '':'' # r \<and> sch = map ascii_lower pre \<and> pre \<noteq> [] \<and>
        ascii_alpha (hd pre) \<and> list_all (\<lambda>c. c \<in> set scheme_chars) pre)"
proof (cases "has_scheme url")
  case False
  assume "split_scheme url = (sch, r)"
  with False show ?thesis by (auto simp: split_scheme_def has_scheme_def Let_def)
next
  case True
  assume s: "split_scheme url = (sch, r)"
  from True have c: "CHR '':'' \<in> set url" by (simp add: has_scheme_def)
  from True s have "sch = map ascii_lower (fst (split_first (CHR '':'') url))"
    "r = snd (split_first (CHR '':'') url)"
    by (auto simp: split_scheme_def has_scheme_def Let_def split_first_def)
  with split_first_decomp [OF c] True show ?thesis
    by (auto simp: has_scheme_def split_first_def)
qed

lemma split_scheme_no_scheme: "\<not> has_scheme url \<Longrightarrow> split_scheme url = ([], url)"
  by (auto simp: split_scheme_def has_scheme_def Let_def)

lemma split_scheme_redetect:
  assumes "sch \<noteq> []" "ascii_alpha (hd sch)" "list_all (\<lambda>c. c \<in> set scheme_chars) sch"
    "map ascii_lower sch = sch"
  shows "split_scheme (sch @ CHR '':'' # r) = (sch, r)"
proof -
  from assms(3) have "CHR '':'' \<notin> set sch"
    using scheme_char_not_delim by (auto simp: list_all_iff)
  then have "takeWhile (\<lambda>c. c \<noteq> CHR '':'') (sch @ CHR '':'' # r) = sch"
    "dropWhile (\<lambda>c. c \<noteq> CHR '':'') (sch @ CHR '':'' # r) = CHR '':'' # r"
    by (simp_all add: takeWhile_neq_append dropWhile_neq_append)
  with assms show ?thesis by (simp add: split_scheme_def Let_def)
qed

lemma lowered_scheme:
  assumes "pre \<noteq> []" "ascii_alpha (hd pre)" "list_all (\<lambda>c. c \<in> set scheme_chars) pre"
  shows "map ascii_lower pre \<noteq> [] \<and> ascii_alpha (hd (map ascii_lower pre)) \<and>
         list_all (\<lambda>c. c \<in> set scheme_chars) (map ascii_lower pre) \<and>
         map ascii_lower (map ascii_lower pre) = map ascii_lower pre"
  using assms
  by (auto simp: list_all_iff hd_map ascii_alpha_lower scheme_char_lower ascii_lower_idem)

lemma no_scheme_prefix:
  assumes "\<not> has_scheme (a @ t)" and "q = [] \<or> (hd q \<notin> set scheme_chars \<and> hd q \<noteq> CHR '':'')"
  shows "\<not> has_scheme (a @ q)"
proof
  assume "has_scheme (a @ q)"
  then obtain pre r where e: "a @ q = pre @ CHR '':'' # r" and p: "pre \<noteq> []"
    "ascii_alpha (hd pre)" "list_all (\<lambda>c. c \<in> set scheme_chars) pre"
    by (auto simp: has_scheme_iff)
  from e have "a @ q = (pre @ [CHR '':'']) @ r" by simp
  then obtain us where "(a = (pre @ [CHR '':'']) @ us \<and> us @ q = r) \<or>
      (a @ us = pre @ [CHR '':''] \<and> q = us @ r)"
    unfolding append_eq_append_conv2 by blast
  then have "\<exists>us. a = (pre @ [CHR '':'']) @ us"
  proof
    assume "a = (pre @ [CHR '':'']) @ us \<and> us @ q = r"
    then show ?thesis by blast
  next
    assume b: "a @ us = pre @ [CHR '':''] \<and> q = us @ r"
    show ?thesis
    proof (cases us)
      case Nil
      with b show ?thesis by auto
    next
      case (Cons x xs)
      have "x \<in> set (a @ x # xs)" by simp
      with b Cons have "x \<in> set (pre @ [CHR '':''])" by simp
      moreover from b Cons have "hd q = x" "q \<noteq> []" by simp_all
      ultimately show ?thesis using assms(2) p(3) by (auto simp: list_all_iff)
    qed
  qed
  then obtain us where "a @ t = pre @ CHR '':'' # (us @ t)" by auto
  with p have "has_scheme (a @ t)" unfolding has_scheme_iff by blast
  with assms(1) show False by simp
qed

lemma last_segment:
  "\<exists>dir seg. u = dir @ seg \<and> CHR ''/'' \<notin> set seg \<and> (dir = [] \<or> last dir = CHR ''/'')"
proof -
  let ?P = "\<lambda>c. c \<noteq> CHR ''/''"
  let ?seg = "rev (takeWhile ?P (rev u))" and ?dir = "rev (dropWhile ?P (rev u))"
  have 1: "u = ?dir @ ?seg"
    by (metis rev_append rev_rev_ident takeWhile_dropWhile_id)
  have 2: "CHR ''/'' \<notin> set ?seg" by (auto dest: set_takeWhileD)
  have 3: "?dir = [] \<or> last ?dir = CHR ''/''"
  proof (cases "dropWhile ?P (rev u)")
    case Nil
    then show ?thesis by simp
  next
    case (Cons x xs)
    with hd_dropWhile [of ?P "rev u"] have "x = CHR ''/''" by simp
    with Cons show ?thesis by simp
  qed
  from 1 2 3 show ?thesis by blast
qed

lemma splitparams_segment:
  assumes "CHR ''/'' \<notin> set seg" and "dir = [] \<or> last dir = CHR ''/''"
    and "CHR '';'' \<in> set (dir @ seg)"
  shows "splitparams (dir @ seg) =
           (if CHR '';'' \<in> set seg
            then (dir @ takeWhile (\<lambda>c. c \<noteq> CHR '';'') seg,
                  tl (dropWhile (\<lambda>c. c \<noteq> CHR '';'') seg))
            else (dir @ seg, []))"
proof (cases "dir = []")
  case True
  with assms show ?thesis by (simp add: splitparams_def split_first_def)
next
  case False
  with assms(2) have l: "last dir = CHR ''/''" by simp
  with False obtain d0 where d: "dir = d0 @ [CHR ''/'']"
    by (metis append_butlast_last_id)
  from assms(1) have "CHR ''/'' \<notin> set (rev seg)" by simp
  from takeWhile_neq_append [OF this, of "rev d0"]
  have "takeWhile (\<lambda>c. c \<noteq> CHR ''/'') (rev (dir @ seg)) = rev seg"
    by (simp add: d)
  moreover have "CHR ''/'' \<in> set (dir @ seg)" by (simp add: d)
  ultimately show ?thesis by (simp add: splitparams_def Let_def)
qed

lemma split_params_of_segment:
  assumes "CHR ''/'' \<notin> set seg" and "dir = [] \<or> last dir = CHR ''/''"
  shows "split_params_of (dir @ seg) =
           (if CHR '';'' \<in> set seg
            then (dir @ takeWhile (\<lambda>c. c \<noteq> CHR '';'') seg,
                  tl (dropWhile (\<lambda>c. c \<noteq> CHR '';'') seg))
            else (dir @ seg, []))"
proof (cases "CHR '';'' \<in> set (dir @ seg)")
  case True
  with splitparams_segment [OF assms True] show ?thesis by (simp add: split_params_of_def)
next
  case False
  then show ?thesis by (simp add: split_params_of_def)
qed

lemma params_roundtrip:
  assumes "split_params_of u = (pth, prm)"
  shows "split_params_of (join_params (pth, prm)) = (pth, prm)"
    and "join_params (pth, prm) = u \<or> u = join_params (pth, prm) @ '';''"
    and "split_params_of (CHR ''/'' # join_params (pth, prm)) = (CHR ''/'' # pth, prm)"
    and "CHR ''/'' \<notin> set prm"
    and "set pth \<subseteq> set u" and "set prm \<subseteq> set u"
    and "pth \<noteq> [] \<Longrightarrow> hd pth = hd u"
proof -
  from last_segment [of u] obtain dir seg where
    u: "u = dir @ seg" and sg: "CHR ''/'' \<notin> set seg"
    and dr: "dir = [] \<or> last dir = CHR ''/''" by blast
  have dr': "CHR ''/'' # dir = [] \<or> last (CHR ''/'' # dir) = CHR ''/''"
    using dr by auto
  have all: "split_params_of (join_params (pth, prm)) = (pth, prm) \<and>
        (join_params (pth, prm) = u \<or> u = join_params (pth, prm) @ '';'') \<and>
        split_params_of (CHR ''/'' # join_params (pth, prm)) = (CHR ''/'' # pth, prm) \<and>
        CHR ''/'' \<notin> set prm \<and> set pth \<subseteq> set u \<and> set prm \<subseteq> set u \<and>
        (pth \<noteq> [] \<longrightarrow> hd pth = hd u)"
  proof (cases "CHR '';'' \<in> set seg")
    case False
    with split_params_of_segment [OF sg dr] assms u have p: "pth = u" "prm = []" by auto
    from split_params_of_segment [OF sg dr', simplified] False u
    have "split_params_of (CHR ''/'' # u) = (CHR ''/'' # u, [])" by simp
    with p assms show ?thesis by (simp add: join_params_def)
  next
    case True
    from split_first_decomp [OF True] obtain s1 s2 where
      seg: "seg = s1 @ CHR '';'' # s2" and s1: "CHR '';'' \<notin> set s1"
      and tw: "takeWhile (\<lambda>c. c \<noteq> CHR '';'') seg = s1"
           "tl (dropWhile (\<lambda>c. c \<noteq> CHR '';'') seg) = s2"
      by (auto simp: split_first_def)
    from split_params_of_segment [OF sg dr] assms u True tw
    have p: "pth = dir @ s1" "prm = s2" by auto
    from sg seg have n1: "CHR ''/'' \<notin> set s1" and n2: "CHR ''/'' \<notin> set s2" by auto
    have hd: "pth \<noteq> [] \<longrightarrow> hd pth = hd u"
      using p u seg by (cases dir; cases s1) auto
    show ?thesis
    proof (cases "s2 = []")
      case True
      from split_params_of_segment [OF n1 dr] s1
      have a: "split_params_of (dir @ s1) = (dir @ s1, [])" by simp
      from split_params_of_segment [OF n1 dr', simplified] s1
      have b: "split_params_of (CHR ''/'' # dir @ s1) = (CHR ''/'' # dir @ s1, [])" by simp
      from a b p True u seg hd show ?thesis by (auto simp: join_params_def)
    next
      case False
      from split_params_of_segment [OF sg dr', simplified] \<open>CHR '';'' \<in> set seg\<close> tw
      have b: "split_params_of (CHR ''/'' # dir @ seg) = (CHR ''/'' # dir @ s1, s2)" by simp
      from False p u seg have j: "join_params (pth, prm) = u" by (simp add: join_params_def)
      from j b assms p u seg n2 hd show ?thesis by auto
    qed
  qed
  from all show "split_params_of (join_params (pth, prm)) = (pth, prm)"
    and "join_params (pth, prm) = u \<or> u = join_params (pth, prm) @ '';''"
    and "split_params_of (CHR ''/'' # join_params (pth, prm)) = (CHR ''/'' # pth, prm)"
    and "CHR ''/'' \<notin> set prm"
    and "set pth \<subseteq> set u" and "set prm \<subseteq> set u"
    and "pth \<noteq> [] \<Longrightarrow> hd pth = hd u" by blast+
qed

lemma takeWhile_all_then:
  "\<forall>c\<in>set xs. P c \<Longrightarrow> r = [] \<or> \<not> P (hd r) \<Longrightarrow>
     takeWhile P (xs @ r) = xs \<and> dropWhile P (xs @ r) = r"
  by (induction xs) (auto, (cases r; simp)+)

lemma take2_append:
  "take 2 u \<noteq> ''//'' \<Longrightarrow> t = [] \<or> hd t \<noteq> CHR ''/'' \<Longrightarrow> take 2 (u @ t) \<noteq> ''//''"
proof (cases u)
  case Nil
  assume "t = [] \<or> hd t \<noteq> CHR ''/''"
  with Nil show ?thesis by (cases t) auto
next
  case (Cons a u')
  assume 1: "take 2 u \<noteq> ''//''" and 2: "t = [] \<or> hd t \<noteq> CHR ''/''"
  show ?thesis
  proof (cases u')
    case Nil
    with Cons 2 show ?thesis by (cases t) auto
  next
    case (Cons b u'')
    with \<open>u = a # u'\<close> 1 show ?thesis by auto
  qed
qed

lemma clean_id:
  assumes "\<forall>c\<in>set w. \<not> unsafe_url_byte c" and "w = [] \<or> \<not> c0_control_or_space (hd w)"
  shows "filter (\<lambda>c. \<not> unsafe_url_byte c) (dropWhile c0_control_or_space w) = w"
proof -
  from assms(2) have "dropWhile c0_control_or_space w = w" by (cases w) auto
  with assms(1) show ?thesis by (simp add: filter_id_conv)
qed

lemma urlunsplit_shape:
  "urlunsplit True (sch, loc, u, q, []) =
     (if sch \<noteq> [] then sch @ '':'' else []) @
     (if uses_slashes sch loc u then ''//'' @ loc @ rooted sch loc u else u) @
     (if q \<noteq> [] then CHR ''?'' # q else [])"
  by (cases u) (auto simp: urlunsplit_def Let_def uses_slashes_def rooted_def)

lemma urlsplit_assembled:
  assumes S: "sch = [] \<or> (ascii_alpha (hd sch) \<and> list_all (\<lambda>c. c \<in> set scheme_chars) sch \<and>
                 map ascii_lower sch = sch)"
    and N: "\<forall>c\<in>set loc. \<not> netloc_delim c" "loc \<noteq> [] \<longrightarrow> vn loc"
    and U: "CHR ''?'' \<notin> set u" "CHR ''#'' \<notin> set u"
    and Q: "CHR ''#'' \<notin> set q"
    and cl: "\<forall>c\<in>set (loc @ u @ q). \<not> unsafe_url_byte c"
    and sh: "loc \<noteq> [] \<longrightarrow> u = [] \<or> hd u = CHR ''/''"
    and ns: "sch = [] \<longrightarrow> \<not> has_scheme (urlunsplit True (sch, loc, u, q, [])) \<and>
               (urlunsplit True (sch, loc, u, q, []) = [] \<or>
                \<not> c0_control_or_space (hd (urlunsplit True (sch, loc, u, q, []))))"
  shows "urlsplit vn (urlunsplit True (sch, loc, u, q, [])) = Inr (sch, loc, rooted sch loc u, q, [])"
proof -
  let ?w = "urlunsplit True (sch, loc, u, q, [])"
  let ?u' = "rooted sch loc u"
  let ?Q = "if q \<noteq> [] then CHR ''?'' # q else []"
  let ?R = "(if uses_slashes sch loc u then ''//'' @ loc @ ?u' else u) @ ?Q"
  have w: "?w = (if sch \<noteq> [] then sch @ '':'' else []) @ ?R"
    by (simp add: urlunsplit_shape)
  \<comment> \<open>the rooted path\<close>
  have u'set: "set ?u' \<subseteq> insert (CHR ''/'') (set u)" by (auto simp: rooted_def)
  have u'q: "CHR ''?'' \<notin> set ?u'" "CHR ''#'' \<notin> set ?u'"
    using U by (auto simp: rooted_def)
  have u'hd: "uses_slashes sch loc u \<Longrightarrow> ?u' = [] \<or> hd ?u' = CHR ''/''"
    by (auto simp: rooted_def)
  have u'same: "\<not> uses_slashes sch loc u \<Longrightarrow> ?u' = u" by (simp add: rooted_def)
  \<comment> \<open>nothing is stripped\<close>
  have schsafe: "\<forall>c\<in>set sch. \<not> unsafe_url_byte c"
    using S scheme_char_not_delim by (auto simp: list_all_iff)
  have "\<forall>c\<in>set ?w. \<not> unsafe_url_byte c"
    using cl schsafe u'set delims_not_c0 unfolding w by (auto split: if_splits)
  moreover have "?w = [] \<or> \<not> c0_control_or_space (hd ?w)"
  proof (cases "sch = []")
    case True
    with ns show ?thesis by simp
  next
    case False
    with S have "ascii_alpha (hd sch)" by simp
    then have "\<not> c0_control_or_space (hd sch)" by (rule ascii_alpha_not_c0)
    with False show ?thesis unfolding w by simp
  qed
  ultimately have 1: "filter (\<lambda>c. \<not> unsafe_url_byte c) (dropWhile c0_control_or_space ?w) = ?w"
    by (rule clean_id)
  \<comment> \<open>the scheme\<close>
  have 2: "split_scheme ?w = (sch, ?R)"
  proof (cases "sch = []")
    case True
    with ns have "split_scheme ?w = ([], ?w)" by (simp add: split_scheme_no_scheme)
    with True w show ?thesis by simp
  next
    case False
    with S split_scheme_redetect [of sch ?R] show ?thesis unfolding w by simp
  qed
  \<comment> \<open>the network location\<close>
  have Qhd: "?Q = [] \<or> hd ?Q = CHR ''?''" by simp
  have 3: "(if take 2 ?R = ''//'' then splitnetloc ?R else ([], ?R)) = (loc, ?u' @ ?Q)"
  proof (cases "uses_slashes sch loc u")
    case True
    have "?u' @ ?Q = [] \<or> netloc_delim (hd (?u' @ ?Q))"
      using u'hd [OF True] by (cases "?u'") (auto simp: netloc_delim_def)
    then have "?u' @ ?Q = [] \<or> \<not> (\<lambda>c. \<not> netloc_delim c) (hd (?u' @ ?Q))" by simp
    from takeWhile_all_then [of loc "\<lambda>c. \<not> netloc_delim c" "?u' @ ?Q", OF N(1) this] True
    show ?thesis by (simp add: splitnetloc_def)
  next
    case False
    then have l: "loc = []" and t: "take 2 u \<noteq> ''//''" by (simp_all add: uses_slashes_def)
    from take2_append [OF t, of ?Q] have "take 2 (u @ ?Q) \<noteq> ''//''" by simp
    with False l u'same [OF False] show ?thesis by simp
  qed
  \<comment> \<open>fragment and query\<close>
  have 4: "(if CHR ''#'' \<in> set (?u' @ ?Q) then split_first (CHR ''#'') (?u' @ ?Q)
            else (?u' @ ?Q, [])) = (?u' @ ?Q, [])" using u'q Q by simp
  have 5: "(if CHR ''?'' \<in> set (?u' @ ?Q) then split_first (CHR ''?'') (?u' @ ?Q)
            else (?u' @ ?Q, [])) = (?u', q)"
    using u'q(1) split_first_append [of "CHR ''?''" ?u' q] by simp
  show ?thesis
    unfolding urlsplit_def Let_def 1 2 prod.case 3 4 5 using N(2) by auto
qed

lemma not_alpha_no_scheme:
  "w = [] \<or> \<not> ascii_alpha (hd w) \<Longrightarrow> \<not> has_scheme w"
  by (auto simp: has_scheme_iff)

lemma delims_not_alpha:
  "\<not> ascii_alpha (CHR ''/'')" "\<not> ascii_alpha (CHR ''?'')" "\<not> ascii_alpha (CHR '';'')"
  "CHR ''?'' \<notin> set scheme_chars" "CHR '';'' \<notin> set scheme_chars"
  by (simp_all add: ascii_alpha_def scheme_chars_def)

lemma cleaned_props:
  "(\<forall>c\<in>set (filter (\<lambda>c. \<not> unsafe_url_byte c) (dropWhile c0_control_or_space x)).
       \<not> unsafe_url_byte c) \<and>
   (filter (\<lambda>c. \<not> unsafe_url_byte c) (dropWhile c0_control_or_space x) = [] \<or>
    \<not> c0_control_or_space
        (hd (filter (\<lambda>c. \<not> unsafe_url_byte c) (dropWhile c0_control_or_space x))))"
proof (cases "dropWhile c0_control_or_space x")
  case Nil
  show ?thesis unfolding Nil by simp
next
  case (Cons a ys)
  with hd_dropWhile [of c0_control_or_space x] have "\<not> c0_control_or_space a" by simp
  moreover then have "\<not> unsafe_url_byte a" using unsafe_is_c0 by blast
  ultimately show ?thesis using Cons by simp
qed

lemma split_opt_props:
  assumes "(if c \<in> set s then split_first c s else (s, [])) = (a, b)"
  shows "c \<notin> set a" and "set a \<subseteq> set s" and "set b \<subseteq> set s"
    and "\<exists>t. s = a @ t \<and> (t = [] \<or> hd t = c)"
proof -
  have "c \<notin> set a \<and> set a \<subseteq> set s \<and> set b \<subseteq> set s \<and>
        (\<exists>t. s = a @ t \<and> (t = [] \<or> hd t = c))"
  proof (cases "c \<in> set s")
    case False
    with assms show ?thesis by auto
  next
    case True
    with assms have ab: "split_first c s = (a, b)" by simp
    from split_first_decomp [OF True] ab have d: "s = a @ c # b" "c \<notin> set a" by simp_all
    then have "set a \<subseteq> set s" "set b \<subseteq> set s" by auto
    moreover from d have "\<exists>t. s = a @ t \<and> (t = [] \<or> hd t = c)" by auto
    ultimately show ?thesis using d by blast
  qed
  then show "c \<notin> set a" and "set a \<subseteq> set s" and "set b \<subseteq> set s"
    and "\<exists>t. s = a @ t \<and> (t = [] \<or> hd t = c)" by blast+
qed

lemma urlsplit_props:
  assumes "urlsplit vn x = Inr (sch, loc, u, q, f)"
  shows "sch = [] \<or> (ascii_alpha (hd sch) \<and> list_all (\<lambda>c. c \<in> set scheme_chars) sch \<and>
                 map ascii_lower sch = sch)"
    and "\<forall>c\<in>set loc. \<not> netloc_delim c" and "loc \<noteq> [] \<longrightarrow> vn loc"
    and "CHR ''?'' \<notin> set u" and "CHR ''#'' \<notin> set u" and "CHR ''#'' \<notin> set q"
    and "\<forall>c\<in>set (loc @ u @ q). \<not> unsafe_url_byte c"
    and "loc \<noteq> [] \<longrightarrow> u = [] \<or> hd u = CHR ''/''"
    and "sch = [] \<longrightarrow> u = [] \<or> (\<not> c0_control_or_space (hd u) \<and> (\<exists>t. \<not> has_scheme (u @ t)))"
proof -
  let ?x1 = "filter (\<lambda>c. \<not> unsafe_url_byte c) (dropWhile c0_control_or_space x)"
  obtain sch' x2 where ss: "split_scheme ?x1 = (sch', x2)" by (cases "split_scheme ?x1")
  obtain loc' x3 where nl:
    "(if take 2 x2 = ''//'' then splitnetloc x2 else ([], x2)) = (loc', x3)"
    by (cases "if take 2 x2 = ''//'' then splitnetloc x2 else ([], x2)")
  obtain x4 f' where fr:
    "(if CHR ''#'' \<in> set x3 then split_first (CHR ''#'') x3 else (x3, [])) = (x4, f')"
    by (cases "if CHR ''#'' \<in> set x3 then split_first (CHR ''#'') x3 else (x3, [])")
  obtain u' q' where qr:
    "(if CHR ''?'' \<in> set x4 then split_first (CHR ''?'') x4 else (x4, [])) = (u', q')"
    by (cases "if CHR ''?'' \<in> set x4 then split_first (CHR ''?'') x4 else (x4, [])")
  from assms have "(if loc' \<noteq> [] \<and> \<not> vn loc' then Inl (OtherException ''ValueError'')
                    else Inr (sch', loc', u', q', f')) = Inr (sch, loc, u, q, f)"
    unfolding urlsplit_def Let_def ss prod.case nl fr qr .
  then have eq: "sch' = sch" "loc' = loc" "u' = u" "q' = q" "f' = f"
    and vn: "loc \<noteq> [] \<longrightarrow> vn loc" by (auto split: if_splits)
  note ss = ss [unfolded eq] and nl = nl [unfolded eq] and fr = fr [unfolded eq]
    and qr = qr [unfolded eq]
  from cleaned_props [of x] have x1: "\<forall>c\<in>set ?x1. \<not> unsafe_url_byte c"
    "?x1 = [] \<or> \<not> c0_control_or_space (hd ?x1)" by blast+
  \<comment> \<open>the scheme\<close>
  have S: "sch = [] \<or> (ascii_alpha (hd sch) \<and> list_all (\<lambda>c. c \<in> set scheme_chars) sch \<and>
                 map ascii_lower sch = sch)"
    and x2: "set x2 \<subseteq> set ?x1" and x2': "sch = [] \<longrightarrow> x2 = ?x1 \<and> \<not> has_scheme ?x1"
  proof -
    from split_scheme_cases [OF ss]
    consider "sch = []" "x2 = ?x1" "\<not> has_scheme ?x1"
      | pre where "?x1 = pre @ CHR '':'' # x2" "sch = map ascii_lower pre" "pre \<noteq> []"
          "ascii_alpha (hd pre)" "list_all (\<lambda>c. c \<in> set scheme_chars) pre" by blast
    then have "(sch = [] \<or> (ascii_alpha (hd sch) \<and> list_all (\<lambda>c. c \<in> set scheme_chars) sch \<and>
                 map ascii_lower sch = sch)) \<and> set x2 \<subseteq> set ?x1 \<and>
               (sch = [] \<longrightarrow> x2 = ?x1 \<and> \<not> has_scheme ?x1)"
    proof cases
      case 1
      then show ?thesis by simp
    next
      case 2
      from lowered_scheme [OF 2(3,4,5)] 2(2)
      have "sch \<noteq> []" "ascii_alpha (hd sch)" "list_all (\<lambda>c. c \<in> set scheme_chars) sch"
        "map ascii_lower sch = sch" by simp_all
      moreover have "set x2 \<subseteq> set (pre @ CHR '':'' # x2)" by auto
      ultimately show ?thesis using 2(1) by simp
    qed
    then show "sch = [] \<or> (ascii_alpha (hd sch) \<and> list_all (\<lambda>c. c \<in> set scheme_chars) sch \<and>
                 map ascii_lower sch = sch)"
      and "set x2 \<subseteq> set ?x1" and "sch = [] \<longrightarrow> x2 = ?x1 \<and> \<not> has_scheme ?x1" by blast+
  qed
  \<comment> \<open>the network location\<close>
  have N: "\<forall>c\<in>set loc. \<not> netloc_delim c" and x3: "set x3 \<subseteq> set x2" "set loc \<subseteq> set x2"
    and x3': "take 2 x2 = ''//'' \<longrightarrow> x3 = [] \<or> netloc_delim (hd x3)"
    and x3'': "take 2 x2 \<noteq> ''//'' \<longrightarrow> x3 = x2 \<and> loc = []"
  proof -
    have "(\<forall>c\<in>set loc. \<not> netloc_delim c) \<and> set x3 \<subseteq> set x2 \<and> set loc \<subseteq> set x2 \<and>
          (take 2 x2 = ''//'' \<longrightarrow> x3 = [] \<or> netloc_delim (hd x3)) \<and>
          (take 2 x2 \<noteq> ''//'' \<longrightarrow> x3 = x2 \<and> loc = [])"
    proof (cases "take 2 x2 = ''//''")
      case False
      with nl show ?thesis by auto
    next
      case True
      let ?P = "\<lambda>c. \<not> netloc_delim c"
      from True nl have l: "loc = takeWhile ?P (drop 2 x2)" and r: "x3 = dropWhile ?P (drop 2 x2)"
        by (simp_all add: splitnetloc_def)
      have "\<forall>c\<in>set loc. \<not> netloc_delim c" unfolding l by (auto dest: set_takeWhileD)
      moreover have "set loc \<subseteq> set x2" unfolding l
        by (meson set_takeWhileD in_set_dropD subsetI)
      moreover have "set x3 \<subseteq> set x2" unfolding r
        by (meson set_dropWhileD in_set_dropD subsetI)
      moreover have "x3 = [] \<or> netloc_delim (hd x3)"
        unfolding r using hd_dropWhile [of ?P "drop 2 x2"] by blast
      ultimately show ?thesis using True by blast
    qed
    then show "\<forall>c\<in>set loc. \<not> netloc_delim c" and "set x3 \<subseteq> set x2" "set loc \<subseteq> set x2"
      and "take 2 x2 = ''//'' \<longrightarrow> x3 = [] \<or> netloc_delim (hd x3)"
      and "take 2 x2 \<noteq> ''//'' \<longrightarrow> x3 = x2 \<and> loc = []" by blast+
  qed
  \<comment> \<open>fragment and query\<close>
  note F = split_opt_props [OF fr] and Qr = split_opt_props [OF qr]
  from F Qr have U: "CHR ''?'' \<notin> set u" "CHR ''#'' \<notin> set u" and Q: "CHR ''#'' \<notin> set q"
    by blast+
  from F(4) Qr(4) obtain t where t: "x3 = u @ t" by auto
  from x2 x3 F(2) Qr(2,3) have "set loc \<union> set u \<union> set q \<subseteq> set ?x1" by blast
  with x1(1) have cl: "\<forall>c\<in>set (loc @ u @ q). \<not> unsafe_url_byte c"
    by (simp only: set_append) blast
  have rooted: "take 2 x2 = ''//'' \<longrightarrow> u = [] \<or> hd u = CHR ''/''"
  proof (intro impI)
    assume "take 2 x2 = ''//''"
    with x3' have "x3 = [] \<or> netloc_delim (hd x3)" by simp
    with t U show "u = [] \<or> hd u = CHR ''/''"
      by (cases u) (auto simp: netloc_delim_def)
  qed
  have sh: "loc \<noteq> [] \<longrightarrow> u = [] \<or> hd u = CHR ''/''"
    using rooted x3'' by blast
  have ns: "sch = [] \<longrightarrow> u = [] \<or>
              (\<not> c0_control_or_space (hd u) \<and> (\<exists>t. \<not> has_scheme (u @ t)))"
  proof (intro impI)
    assume e: "sch = []"
    show "u = [] \<or> (\<not> c0_control_or_space (hd u) \<and> (\<exists>t. \<not> has_scheme (u @ t)))"
    proof (cases "take 2 x2 = ''//''")
      case True
      with rooted have "u = [] \<or> hd u = CHR ''/''" by simp
      then show ?thesis
      proof
        assume h: "hd u = CHR ''/''"
        with delims_not_alpha have "\<not> has_scheme (u @ [])"
          by (intro not_alpha_no_scheme) simp
        moreover from h delims_not_c0 have "\<not> c0_control_or_space (hd u)" by simp
        ultimately show ?thesis by blast
      qed simp
    next
      case False
      with x3'' x2' e t have "?x1 = u @ t" "\<not> has_scheme (u @ t)" by auto
      with x1(2) show ?thesis by (cases u) auto
    qed
  qed
  from S N vn U Q cl sh ns
  show "sch = [] \<or> (ascii_alpha (hd sch) \<and> list_all (\<lambda>c. c \<in> set scheme_chars) sch \<and>
                 map ascii_lower sch = sch)"
    and "\<forall>c\<in>set loc. \<not> netloc_delim c" and "loc \<noteq> [] \<longrightarrow> vn loc"
    and "CHR ''?'' \<notin> set u" and "CHR ''#'' \<notin> set u" and "CHR ''#'' \<notin> set q"
    and "\<forall>c\<in>set (loc @ u @ q). \<not> unsafe_url_byte c"
    and "loc \<noteq> [] \<longrightarrow> u = [] \<or> hd u = CHR ''/''"
    and "sch = [] \<longrightarrow> u = [] \<or> (\<not> c0_control_or_space (hd u) \<and> (\<exists>t. \<not> has_scheme (u @ t)))"
    by blast+
qed

lemma urlparse_of_split:
  assumes "urlsplit vn x = Inr (sch, loc, u, q, f)"
  shows "urlparse vn x =
           Inr \<lparr>scheme = sch, netloc = loc,
                path = fst (if sch \<in> set uses_params then split_params_of u else (u, [])),
                params = snd (if sch \<in> set uses_params then split_params_of u else (u, [])),
                query = q, fragment = f\<rparr>"
  using assms by (simp add: urlparse_def split_params_of_def split_beta)

lemma urlparse_split:
  assumes "urlparse vn x = Inr p"
  shows "\<exists>u. urlsplit vn x = Inr (scheme p, netloc p, u, query p, fragment p) \<and>
             (path p, params p) =
               (if scheme p \<in> set uses_params then split_params_of u else (u, []))"
proof (cases "urlsplit vn x")
  case (Inl e)
  with assms show ?thesis by (simp add: urlparse_def)
next
  case (Inr r)
  obtain sch loc u q f where r: "r = (sch, loc, u, q, f)" by (cases r)
  from urlparse_of_split [of vn x sch loc u q f] Inr r assms show ?thesis by auto
qed

lemma urlunsplit_rooted:
  "urlunsplit True (sch, loc, rooted sch loc u, q, []) = urlunsplit True (sch, loc, u, q, [])"
proof (cases "uses_slashes sch loc u \<and> u \<noteq> [] \<and> hd u \<noteq> CHR ''/''")
  case False
  then have "rooted sch loc u = u" by (auto simp: rooted_def)
  then show ?thesis by simp
next
  case True
  then have r: "rooted sch loc u = CHR ''/'' # u" by (simp add: rooted_def)
  from True have "take 2 u \<noteq> ''//''" by (cases u) auto
  with True have "loc \<noteq> [] \<or> (sch \<noteq> [] \<and> sch \<in> set uses_netloc)"
    by (simp add: uses_slashes_def)
  then have u: "uses_slashes sch loc (CHR ''/'' # u)" by (auto simp: uses_slashes_def)
  then have "rooted sch loc (CHR ''/'' # u) = CHR ''/'' # u" by (simp add: rooted_def)
  with u True r show ?thesis by (simp add: urlunsplit_shape)
qed

lemma join_params_rooted:
  "join_params (CHR ''/'' # pth, prm) = CHR ''/'' # join_params (pth, prm)"
  by (simp add: join_params_def)

lemma urlunparse_join:
  "urlunparse fx (sch, loc, pth, prm, q, f) = urlunsplit fx (sch, loc, join_params (pth, prm), q, f)"
  by (simp add: urlunparse_def join_params_def)

lemma reparse_normalized_fixed:
  assumes "urlparse vn x = Inr p"
  shows "\<exists>pth'. urlparse vn (urlunparse True (scheme p, netloc p, path p, params p, query p, []))
                  = Inr (p\<lparr>path := pth', fragment := []\<rparr>) \<and>
           (pth' = path p \<or> pth' = CHR ''/'' # path p) \<and>
           (netloc p \<noteq> [] \<or> take 1 (path p) = ''/'' \<longrightarrow> pth' = path p) \<and>
           urlunparse True (scheme p, netloc p, pth', params p, query p, [])
             = urlunparse True (scheme p, netloc p, path p, params p, query p, [])"
proof -
  let ?sch = "scheme p" and ?loc = "netloc p" and ?q = "query p"
  let ?pth = "path p" and ?prm = "params p"
  from urlparse_split [OF assms] obtain u where
    sp: "urlsplit vn x = Inr (?sch, ?loc, u, ?q, fragment p)" and
    pp: "(?pth, ?prm) = (if ?sch \<in> set uses_params then split_params_of u else (u, []))"
    by blast
  note B = urlsplit_props [OF sp]
  let ?upp = "join_params (?pth, ?prm)"
  let ?w = "urlunsplit True (?sch, ?loc, ?upp, ?q, [])"
  \<comment> \<open>the path with its parameters, against the path that was split\<close>
  have rel: "?upp = u \<or> u = ?upp @ '';''"
    and again: "(if ?sch \<in> set uses_params then split_params_of ?upp else (?upp, []))
                  = (?pth, ?prm)"
    and again': "(if ?sch \<in> set uses_params then split_params_of (CHR ''/'' # ?upp)
                  else (CHR ''/'' # ?upp, [])) = (CHR ''/'' # ?pth, ?prm)"
    and hdp: "?pth \<noteq> [] \<longrightarrow> take 1 ?pth = take 1 ?upp"
  proof -
    have "(?upp = u \<or> u = ?upp @ '';'') \<and>
          (if ?sch \<in> set uses_params then split_params_of ?upp else (?upp, [])) = (?pth, ?prm) \<and>
          (if ?sch \<in> set uses_params then split_params_of (CHR ''/'' # ?upp)
                  else (CHR ''/'' # ?upp, [])) = (CHR ''/'' # ?pth, ?prm) \<and>
          (?pth \<noteq> [] \<longrightarrow> take 1 ?pth = take 1 ?upp)"
    proof (cases "?sch \<in> set uses_params")
      case True
      with pp have "split_params_of u = (?pth, ?prm)" by simp
      from params_roundtrip(1,2,3) [OF this] True
      show ?thesis by (cases ?pth) (auto simp: join_params_def)
    next
      case False
      with pp show ?thesis by (simp add: join_params_def)
    qed
    then show "?upp = u \<or> u = ?upp @ '';''"
      and "(if ?sch \<in> set uses_params then split_params_of ?upp else (?upp, []))
                  = (?pth, ?prm)"
      and "(if ?sch \<in> set uses_params then split_params_of (CHR ''/'' # ?upp)
                  else (CHR ''/'' # ?upp, [])) = (CHR ''/'' # ?pth, ?prm)"
      and "?pth \<noteq> [] \<longrightarrow> take 1 ?pth = take 1 ?upp" by blast+
  qed
  from rel have sub: "set ?upp \<subseteq> set u" by auto
  from rel have hdu: "?upp \<noteq> [] \<Longrightarrow> u \<noteq> [] \<and> hd u = hd ?upp" by (cases ?upp) auto
  \<comment> \<open>the hypotheses of the lemma on assembled URLs\<close>
  have U: "CHR ''?'' \<notin> set ?upp" "CHR ''#'' \<notin> set ?upp" using B(4,5) sub by blast+
  have cl: "\<forall>c\<in>set (?loc @ ?upp @ ?q). \<not> unsafe_url_byte c"
    using B(7) sub by (simp only: set_append) blast
  have sh: "?loc \<noteq> [] \<longrightarrow> ?upp = [] \<or> hd ?upp = CHR ''/''"
  proof (cases "?upp = []")
    case True
    then show ?thesis by simp
  next
    case False
    from hdu [OF False] have "u \<noteq> []" "hd u = hd ?upp" by simp_all
    with B(8) show ?thesis by auto
  qed
  have ns: "?sch = [] \<longrightarrow> \<not> has_scheme ?w \<and> (?w = [] \<or> \<not> c0_control_or_space (hd ?w))"
  proof (intro impI)
    assume e: "?sch = []"
    let ?Q = "if ?q \<noteq> [] then CHR ''?'' # ?q else []"
    show "\<not> has_scheme ?w \<and> (?w = [] \<or> \<not> c0_control_or_space (hd ?w))"
    proof (cases "uses_slashes ?sch ?loc ?upp")
      case True
      with e have "hd ?w = CHR ''/''" "?w \<noteq> []" by (simp_all add: urlunsplit_shape)
      with delims_not_alpha(1) delims_not_c0(1) not_alpha_no_scheme [of ?w]
      show ?thesis by simp
    next
      case False
      with e have w: "?w = ?upp @ ?Q" by (simp add: urlunsplit_shape)
      show ?thesis
      proof (cases "?upp = []")
        case True
        with w have "?w = [] \<or> hd ?w = CHR ''?''" by simp
        with delims_not_alpha(2) delims_not_c0(2) not_alpha_no_scheme [of ?w]
        show ?thesis by auto
      next
        case False
        from hdu [OF False] B(9) e obtain t where
          c: "\<not> c0_control_or_space (hd ?upp)" and t: "\<not> has_scheme (u @ t)" by auto
        from rel t obtain t' where "\<not> has_scheme (?upp @ t')" by auto
        from no_scheme_prefix [OF this, of ?Q] delims_not_alpha(4)
        have "\<not> has_scheme (?upp @ ?Q)" by simp
        with c False w show ?thesis by simp
      qed
    qed
  qed
  from urlsplit_assembled
    [where vn = vn and sch = ?sch and loc = ?loc and u = ?upp and q = ?q,
     OF B(1,2,3) U B(6) cl sh ns]
  have rs: "urlsplit vn ?w = Inr (?sch, ?loc, rooted ?sch ?loc ?upp, ?q, [])" .
  \<comment> \<open>the two shapes of the rooted path\<close>
  let ?pth' = "if rooted ?sch ?loc ?upp = ?upp then ?pth else CHR ''/'' # ?pth"
  have r: "rooted ?sch ?loc ?upp = ?upp \<or> rooted ?sch ?loc ?upp = CHR ''/'' # ?upp"
    by (simp add: rooted_def)
  have par: "(if ?sch \<in> set uses_params then split_params_of (rooted ?sch ?loc ?upp)
              else (rooted ?sch ?loc ?upp, [])) = (?pth', ?prm)"
    using r again again' by auto
  from urlparse_of_split [OF rs] par
  have 1: "urlparse vn ?w = Inr (p\<lparr>path := ?pth', fragment := []\<rparr>)" by simp
  have j: "join_params (?pth', ?prm) = rooted ?sch ?loc ?upp"
    using r by (auto simp: join_params_rooted)
  have 2: "urlunparse True (?sch, ?loc, ?pth', ?prm, ?q, []) = ?w"
    unfolding urlunparse_join j by (rule urlunsplit_rooted)
  have 3: "?loc \<noteq> [] \<or> take 1 ?pth = ''/'' \<longrightarrow> ?pth' = ?pth"
  proof (intro impI)
    assume a: "?loc \<noteq> [] \<or> take 1 ?pth = ''/''"
    have "?upp = [] \<or> hd ?upp = CHR ''/''"
    proof (cases "?loc \<noteq> []")
      case True
      with sh show ?thesis by simp
    next
      case False
      with a have t: "take 1 ?pth = ''/''" by simp
      then have "?pth \<noteq> []" by auto
      with hdp t have "take 1 ?upp = ''/''" by simp
      then show ?thesis by (cases ?upp) auto
    qed
    then have "rooted ?sch ?loc ?upp = ?upp" by (auto simp: rooted_def)
    then show "?pth' = ?pth" by simp
  qed
  have 4: "?pth' = ?pth \<or> ?pth' = CHR ''/'' # ?pth" by simp
  from 1 2 3 4 show ?thesis unfolding urlunparse_join by blast
qed

lemma urlunsplit_release:
  assumes "fx \<or> loc \<noteq> [] \<or> take 2 u \<noteq> ''//''"
  shows "urlunsplit fx (sch, loc, u, q, f) = urlunsplit True (sch, loc, u, q, f)"
  using assms by (cases fx) (auto simp: urlunsplit_def Let_def)

lemma urlunparse_release:
  assumes "fx \<or> loc \<noteq> [] \<or> take 2 pth \<noteq> ''//''"
  shows "urlunparse fx (sch, loc, pth, prm, q, f) = urlunparse True (sch, loc, pth, prm, q, f)"
proof -
  have "take 2 pth \<noteq> ''//'' \<Longrightarrow> take 2 (join_params (pth, prm)) \<noteq> ''//''"
    using take2_append [of pth "CHR '';'' # prm"] by (simp add: join_params_def)
  with assms have "fx \<or> loc \<noteq> [] \<or> take 2 (join_params (pth, prm)) \<noteq> ''//''" by blast
  then show ?thesis unfolding urlunparse_join by (rule urlunsplit_release)
qed

lemma reparse_normalized:
  assumes "urlparse vn x = Inr p" and "fx \<or> netloc p \<noteq> [] \<or> take 2 (path p) \<noteq> ''//''"
  shows "\<exists>pth'. urlparse vn (urlunparse fx (scheme p, netloc p, path p, params p, query p, []))
                  = Inr (p\<lparr>path := pth', fragment := []\<rparr>) \<and>
           (netloc p \<noteq> [] \<or> take 1 (path p) = ''/'' \<longrightarrow> pth' = path p) \<and>
           urlunparse fx (scheme p, netloc p, pth', params p, query p, [])
             = urlunparse fx (scheme p, netloc p, path p, params p, query p, [])"
proof -
  from reparse_normalized_fixed [OF assms(1)] obtain pth' where
    1: "urlparse vn (urlunparse True (scheme p, netloc p, path p, params p, query p, []))
          = Inr (p\<lparr>path := pth', fragment := []\<rparr>)" and
    2: "pth' = path p \<or> pth' = CHR ''/'' # path p" and
    3: "netloc p \<noteq> [] \<or> take 1 (path p) = ''/'' \<longrightarrow> pth' = path p" and
    4: "urlunparse True (scheme p, netloc p, pth', params p, query p, [])
          = urlunparse True (scheme p, netloc p, path p, params p, query p, [])" by blast
  have "fx \<or> netloc p \<noteq> [] \<or> take 2 pth' \<noteq> ''//''"
  proof (cases "pth' = path p")
    case True
    with assms(2) show ?thesis by simp
  next
    case False
    with 2 3 have "pth' = CHR ''/'' # path p" and "take 1 (path p) \<noteq> ''/''" by auto
    then have "take 2 pth' \<noteq> ''//''" by (cases "path p") auto
    then show ?thesis by simp
  qed
  from urlunparse_release [OF this] urlunparse_release [OF assms(2)] 1 3 4
  show ?thesis by (intro exI [of _ pth']) simp
qed

section \<open>Claim about normalization\<close>

text \<open>
  C8, as amended. Normalizing twice is normalizing once, also where \<^verbatim>\<open>urlparse\<close>
  raises: on every URL when the library writes the two slashes before a path that starts
  with two slashes, and with the older condition on every URL that has a network location
  or whose path does not start with two slashes. On these URLs the normalized URL parses to
  the scheme, network location, parameters and query of the URL it came from, with an empty
  fragment, and to the same path whenever the URL has a network location or a path that
  starts with a slash. The URL of the claim, whose host passes the library's check, is
  normalized to \<^verbatim>\<open>http://x.com/a?b=1\<close> by either release.
\<close>

theorem normalize_url_idempotent_strips_fragment:
  "((\<forall>p. urlparse vn u = Inr p \<longrightarrow> slash_fix \<or> netloc p \<noteq> [] \<or> take 2 (path p) \<noteq> ''//'') \<longrightarrow>
      (case normalize_url slash_fix vn u of
         Inl e \<Rightarrow> Inl e
       | Inr w \<Rightarrow> normalize_url slash_fix vn w) = normalize_url slash_fix vn u) \<and>
   (\<forall>p w. urlparse vn u = Inr p \<and> normalize_url slash_fix vn u = Inr w \<and>
          (slash_fix \<or> netloc p \<noteq> [] \<or> take 2 (path p) \<noteq> ''//'') \<longrightarrow>
      (\<exists>p'. urlparse vn w = Inr p' \<and> scheme p' = scheme p \<and> netloc p' = netloc p \<and>
            params p' = params p \<and> query p' = query p \<and> fragment p' = [] \<and>
            (netloc p \<noteq> [] \<or> take 1 (path p) = ''/'' \<longrightarrow> path p' = path p))) \<and>
   (vn ''x.com'' \<longrightarrow>
      normalize_url slash_fix vn ''http://x.com/a?b=1#frag'' = Inr ''http://x.com/a?b=1'')"
proof (intro conjI allI impI)
  assume h: "\<forall>p. urlparse vn u = Inr p \<longrightarrow>
               slash_fix \<or> netloc p \<noteq> [] \<or> take 2 (path p) \<noteq> ''//''"
  show "(case normalize_url slash_fix vn u of
           Inl e \<Rightarrow> Inl e
         | Inr w \<Rightarrow> normalize_url slash_fix vn w) = normalize_url slash_fix vn u"
  proof (cases "urlparse vn u")
    case (Inl e)
    then show ?thesis by (simp add: normalize_url_def)
  next
    case (Inr p)
    with h have "slash_fix \<or> netloc p \<noteq> [] \<or> take 2 (path p) \<noteq> ''//''" by simp
    from reparse_normalized [OF Inr this] obtain pth' where
      "urlparse vn (urlunparse slash_fix (scheme p, netloc p, path p, params p, query p, []))
         = Inr (p\<lparr>path := pth', fragment := []\<rparr>)"
      "urlunparse slash_fix (scheme p, netloc p, pth', params p, query p, [])
         = urlunparse slash_fix (scheme p, netloc p, path p, params p, query p, [])" by blast
    with Inr show ?thesis by (simp add: normalize_url_def)
  qed
next
  fix p w
  assume a: "urlparse vn u = Inr p \<and> normalize_url slash_fix vn u = Inr w \<and>
             (slash_fix \<or> netloc p \<noteq> [] \<or> take 2 (path p) \<noteq> ''//'')"
  then have w: "w = urlunparse slash_fix (scheme p, netloc p, path p, params p, query p, [])"
    by (auto simp: normalize_url_def)
  from a have "urlparse vn u = Inr p"
    and "slash_fix \<or> netloc p \<noteq> [] \<or> take 2 (path p) \<noteq> ''//''" by simp_all
  from reparse_normalized [OF this] obtain pth' where
    "urlparse vn w = Inr (p\<lparr>path := pth', fragment := []\<rparr>)"
    "netloc p \<noteq> [] \<or> take 1 (path p) = ''/'' \<longrightarrow> pth' = path p"
    unfolding w by blast
  then show "\<exists>p'. urlparse vn w = Inr p' \<and> scheme p' = scheme p \<and> netloc p' = netloc p \<and>
            params p' = params p \<and> query p' = query p \<and> fragment p' = [] \<and>
            (netloc p \<noteq> [] \<or> take 1 (path p) = ''/'' \<longrightarrow> path p' = path p)"
    by (intro exI [of _ "p\<lparr>path := pth', fragment := []\<rparr>"]) simp
next
  assume "vn ''x.com''"
  then show "normalize_url slash_fix vn ''http://x.com/a?b=1#frag'' = Inr ''http://x.com/a?b=1''"
    by (cases slash_fix) (simp_all add: url_defs)
qed

theorem normalize_url_idempotent_strips_fragment_witness:
  "normalize_url False (\<lambda>loc. True) ''http://x.com/a?b=1#frag'' = Inr ''http://x.com/a?b=1'' \<and>
   normalize_url False (\<lambda>loc. True) ''http://x.com/a?b=1'' = Inr ''http://x.com/a?b=1'' \<and>
   map_sum id netloc (urlparse (\<lambda>loc. True) ''http://x.com/a?b=1#frag'') = Inr ''x.com'' \<and>
   map_sum id path (urlparse (\<lambda>loc. True) ''http://x.com/a?b=1#frag'') = Inr ''/a'' \<and>
   map_sum id path (urlparse (\<lambda>loc. True) ''http://x.com/a?b=1'') = Inr ''/a''"
proof -
  let ?vn = "\<lambda>loc::string. True"
  have p: "urlparse ?vn ''http://x.com/a?b=1#frag'' =
             Inr \<lparr>scheme = ''http'', netloc = ''x.com'', path = ''/a'', params = [],
                  query = ''b=1'', fragment = ''frag''\<rparr>"
    by (simp add: url_defs)
  note t = normalize_url_idempotent_strips_fragment
             [of ?vn "''http://x.com/a?b=1#frag''" False]
  from t have 1: "normalize_url False ?vn ''http://x.com/a?b=1#frag'' = Inr ''http://x.com/a?b=1''"
    by blast
  have h: "\<forall>q. urlparse ?vn ''http://x.com/a?b=1#frag'' = Inr q \<longrightarrow>
             False \<or> netloc q \<noteq> [] \<or> take 2 (path q) \<noteq> ''//''"
    unfolding p by auto
  from t h have 2: "(case normalize_url False ?vn ''http://x.com/a?b=1#frag'' of
               Inl e \<Rightarrow> Inl e | Inr w \<Rightarrow> normalize_url False ?vn w)
            = normalize_url False ?vn ''http://x.com/a?b=1#frag''" by blast
  from t have "\<forall>q w. urlparse ?vn ''http://x.com/a?b=1#frag'' = Inr q \<and>
          normalize_url False ?vn ''http://x.com/a?b=1#frag'' = Inr w \<and>
          (False \<or> netloc q \<noteq> [] \<or> take 2 (path q) \<noteq> ''//'') \<longrightarrow>
      (\<exists>p'. urlparse ?vn w = Inr p' \<and> scheme p' = scheme q \<and> netloc p' = netloc q \<and>
            params p' = params q \<and> query p' = query q \<and> fragment p' = [] \<and>
            (netloc q \<noteq> [] \<or> take 1 (path q) = ''/'' \<longrightarrow> path p' = path q))" by blast
  from this [rule_format, of _ "''http://x.com/a?b=1''", OF conjI [OF p conjI [OF 1]]]
  obtain p' where
    3: "urlparse ?vn ''http://x.com/a?b=1'' = Inr p'" "path p' = ''/a''" by auto
  from 2 have "normalize_url False ?vn ''http://x.com/a?b=1'' = Inr ''http://x.com/a?b=1''"
    unfolding 1 by simp
  with 1 p 3 show ?thesis by simp
qed

text \<open>
  C8, the counterexample to the claim as stated. The path is not always preserved: the URL
  \<^verbatim>\<open>http:a\<close> has no network location and the relative path \<^verbatim>\<open>a\<close>, and it is normalized
  to \<^verbatim>\<open>http:///a\<close>, whose path is \<^verbatim>\<open>/a\<close>, by either release. And with the older
  condition of \<^verbatim>\<open>urlunsplit\<close> normalizing is not idempotent: \<^verbatim>\<open>http://////x\<close> is
  normalized to \<^verbatim>\<open>http:////x\<close>, and that to \<^verbatim>\<open>http://x\<close>.
\<close>

theorem normalize_url_roots_relative_path:
  "normalize_url True (\<lambda>loc. True) ''http:a'' = Inr ''http:///a'' \<and>
   normalize_url False (\<lambda>loc. True) ''http:a'' = Inr ''http:///a'' \<and>
   map_sum id path (urlparse (\<lambda>loc. True) ''http:a'') = Inr ''a'' \<and>
   map_sum id path (urlparse (\<lambda>loc. True) ''http:///a'') = Inr ''/a'' \<and>
   normalize_url False (\<lambda>loc. True) ''http://////x'' = Inr ''http:////x'' \<and>
   normalize_url False (\<lambda>loc. True) ''http:////x'' = Inr ''http://x''"
  by (simp add: url_defs)

end
